theory Spec2Isabelle
  imports Main
begin

section \<open>Native types of the C++ source\<close>

text \<open>
  The class \<open>BigInt\<close> of \<open>src/main.cpp\<close> has the single field \<open>string digits\<close>, the
  decimal digits of the number, least significant first. Each element is a \<open>char\<close> that
  holds a number (the digit itself, not its ASCII code), so a \<open>BigInt\<close> is modelled by the
  list of the numeric values of its chars.

  \<^item> \<open>char\<close> is the signed 8-bit type of the usual x86-64 targets: storing an \<open>int\<close> into a
    \<open>char\<close> is \<open>to_char\<close>.
  \<^item> \<open>int\<close> is 32-bit two's complement: every \<open>int\<close> the source computes from other
    \<open>int\<close>s (a loop counter stepped by one, \<open>i + j\<close>, \<open>2 * n\<close>, \<open>n + 1\<close>) and every \<open>int\<close>
    it takes from a size wraps around (\<open>to_int\<close>).
  \<^item> \<open>unsigned long long\<close> and \<open>size_t\<close> are natural numbers below \<open>2 ^ 64\<close>; converting an
    \<open>int\<close> to them is \<open>to_ull\<close> and \<open>to_size_t\<close>. \<open>size_of\<close> is what \<open>size()\<close> returns, a
    \<open>size_t\<close>: the length, for every string that has fewer than \<open>2 ^ 64\<close> elements.
    Where the source compares an \<open>int\<close> with a size, or indexes with an \<open>int\<close>, the
    \<open>int\<close> is converted to \<open>size_t\<close> first.
  \<^item> \<open>/\<close> and \<open>%\<close> on \<open>int\<close> truncate towards zero (\<open>cdiv\<close>, \<open>cmod\<close>).
  \<^item> Reading an element beyond the end of a string or vector is undefined in C++; in
    the model \<open>xs ! k\<close> is then an unspecified number and an update does nothing. No
    result below depends on such a read.
  \<^item> Objects are values: every compound assignment of the source is applied to an
    object other than its argument (the non-member operators work on a copy of their
    left operand), so no operation reads digits it has already overwritten.
\<close>

type_synonym BigInt = "int list"

definition to_char :: "int \<Rightarrow> int" where
  "to_char x = (x + 128) mod 256 - 128"

definition to_int :: "int \<Rightarrow> int" where
  "to_int x = (x + 2147483648) mod 4294967296 - 2147483648"

definition to_ull :: "int \<Rightarrow> nat" where
  "to_ull x = nat (x mod 18446744073709551616)"

definition to_size_t :: "int \<Rightarrow> nat" where
  "to_size_t x = nat (x mod 18446744073709551616)"

definition size_of :: "'a list \<Rightarrow> nat" where
  "size_of xs = length xs mod 18446744073709551616"

definition cdiv :: "int \<Rightarrow> int \<Rightarrow> int" where
  "cdiv a b = (if (a < 0) = (b < 0) then \<bar>a\<bar> div \<bar>b\<bar> else - (\<bar>a\<bar> div \<bar>b\<bar>))"

definition cmod :: "int \<Rightarrow> int \<Rightarrow> int" where
  "cmod a b = a - cdiv a b * b"

text \<open>The exceptions the source throws, each with its message.\<close>

datatype error =
    invalid_argument string
  | underflow_error string
  | runtime_error string

section \<open>Constructors\<close>

text \<open>
  \<open>BigInt(unsigned long long n = 0)\<close>: a do-while loop that pushes \<open>n % 10\<close> and divides
  \<open>n\<close> by ten until it is zero.
\<close>

function BigInt_ull_loop :: "nat \<Rightarrow> int list \<Rightarrow> int list" where
  "BigInt_ull_loop n digits =
     (if 0 < n div 10 then BigInt_ull_loop (n div 10) (digits @ [to_char (int (n mod 10))])
      else digits @ [to_char (int (n mod 10))])"
  by pat_completeness auto
termination
  by (relation "measure (\<lambda>(n, digits). n)") auto

definition BigInt_ull :: "nat \<Rightarrow> BigInt" where
  "BigInt_ull n = BigInt_ull_loop n []"

text \<open>
  \<open>BigInt(const string& s)\<close>. \<open>find_first_not_of\<close> returns \<open>None\<close> for \<open>string::npos\<close>;
  \<open>substr(k)\<close> is \<open>drop k\<close>. In the all-zero case the source assigns the string literal
  \<open>"0"\<close> to \<open>digits\<close>: the one character \<open>'0'\<close>, whose numeric value is 48.
  The loop runs the \<open>int i\<close> from \<open>valid_part.size() - 1\<close> down while \<open>i >= 0\<close>.
\<close>

definition char_val :: "char \<Rightarrow> int" where
  "char_val c = to_char (int (of_char c))"

definition isdigit :: "char \<Rightarrow> bool" where
  "isdigit c = (48 \<le> (of_char c :: nat) \<and> (of_char c :: nat) \<le> 57)"

fun find_first_not_of :: "string \<Rightarrow> char \<Rightarrow> nat option" where
  "find_first_not_of [] c = None"
| "find_first_not_of (x # xs) c =
     (if x \<noteq> c then Some 0 else map_option Suc (find_first_not_of xs c))"

function BigInt_str_loop :: "string \<Rightarrow> int \<Rightarrow> int list \<Rightarrow> error + int list" where
  "BigInt_str_loop valid_part i digits =
     (if 0 \<le> i then
        (if \<not> isdigit (valid_part ! to_size_t i)
         then Inl (invalid_argument ''Non-digit character in string'')
         else BigInt_str_loop valid_part (to_int (i - 1))
                (digits @ [to_char (char_val (valid_part ! to_size_t i) - char_val CHR ''0'')]))
      else Inr digits)"
  by pat_completeness auto

definition BigInt_str :: "string \<Rightarrow> error + BigInt" where
  "BigInt_str s =
     (case find_first_not_of s CHR ''0'' of
        None \<Rightarrow> Inr (map char_val ''0'')
      | Some first_non_zero \<Rightarrow>
          BigInt_str_loop (drop first_non_zero s)
            (to_int (int (size_of (drop first_non_zero s)) - 1)) [])"

section \<open>Helper functions\<close>

definition is_zero :: "BigInt \<Rightarrow> bool" where
  "is_zero digits = (length digits = 1 \<and> digits ! 0 = 0)"

function remove_leading_zeros :: "int list \<Rightarrow> int list" where
  "remove_leading_zeros digits =
     (if 1 < length digits \<and> last digits = 0 then remove_leading_zeros (butlast digits)
      else digits)"
  by pat_completeness auto
termination
  by (relation "measure length") auto

section \<open>Comparison operators\<close>

text \<open>
  \<open>operator<\<close> compares the sizes first and then the digits from the most significant
  position down, with the \<open>int i\<close> starting at \<open>a.digits.size() - 1\<close>.
\<close>

function lt_loop :: "int list \<Rightarrow> int list \<Rightarrow> int \<Rightarrow> bool" where
  "lt_loop a b i =
     (if 0 \<le> i then
        (if a ! to_size_t i \<noteq> b ! to_size_t i then a ! to_size_t i < b ! to_size_t i
         else lt_loop a b (to_int (i - 1)))
      else False)"
  by pat_completeness auto

definition op_lt :: "BigInt \<Rightarrow> BigInt \<Rightarrow> bool" where
  "op_lt a b =
     (if size_of a \<noteq> size_of b then size_of a < size_of b
      else lt_loop a b (to_int (int (size_of a) - 1)))"

definition op_eq :: "BigInt \<Rightarrow> BigInt \<Rightarrow> bool" where
  "op_eq a b = (a = b)"

definition op_ne :: "BigInt \<Rightarrow> BigInt \<Rightarrow> bool" where
  "op_ne a b = (\<not> op_eq a b)"

definition op_gt :: "BigInt \<Rightarrow> BigInt \<Rightarrow> bool" where
  "op_gt a b = op_lt b a"

definition op_le :: "BigInt \<Rightarrow> BigInt \<Rightarrow> bool" where
  "op_le a b = (\<not> op_gt a b)"

definition op_ge :: "BigInt \<Rightarrow> BigInt \<Rightarrow> bool" where
  "op_ge a b = (\<not> op_lt a b)"

section \<open>Addition\<close>

text \<open>
  \<open>int length()\<close> returns the size as an \<open>int\<close>. \<open>operator+=\<close> runs its \<open>int i\<close> while
  \<open>i < max_len || carry\<close>; when a carry is left at the largest \<open>int\<close> the counter wraps
  and the loop goes on outside the string, so the loop is a partial function: \<open>None\<close> is
  a run that does not return.
\<close>

definition length_BigInt :: "BigInt \<Rightarrow> int" where
  "length_BigInt digits = to_int (int (size_of digits))"

partial_function (option) add_loop ::
    "int list \<Rightarrow> int \<Rightarrow> int \<Rightarrow> int \<Rightarrow> int list \<Rightarrow> int list option" where
  "add_loop other max_len i carry digits =
     (if i < max_len \<or> carry \<noteq> 0 then
        (let digits = (if to_size_t i = size_of digits then digits @ [0] else digits);
             other_digit = (if to_size_t i < size_of other then other ! to_size_t i else 0);
             sum = digits ! to_size_t i + other_digit + carry
         in add_loop other max_len (to_int (i + 1)) (cdiv sum 10)
              (digits[to_size_t i := to_char (cmod sum 10)]))
      else Some digits)"

definition op_add_assign :: "BigInt \<Rightarrow> BigInt \<Rightarrow> BigInt option" where
  "op_add_assign self other =
     add_loop other (max (length_BigInt self) (length_BigInt other)) 0 0 self"

section \<open>Subtraction\<close>

text \<open>
  \<open>operator-=\<close> changes the receiver in place and may throw, so the model returns the
  exception (if any) together with the receiver as the call leaves it.
\<close>

function sub_loop :: "int list \<Rightarrow> int \<Rightarrow> int \<Rightarrow> int list \<Rightarrow> int list" where
  "sub_loop other i borrow digits =
     (if to_size_t i < size_of digits then
        (let other_digit = (if to_size_t i < size_of other then other ! to_size_t i else 0);
             diff = digits ! to_size_t i - borrow - other_digit
         in if diff < 0
            then sub_loop other (to_int (i + 1)) 1 (digits[to_size_t i := to_char (diff + 10)])
            else sub_loop other (to_int (i + 1)) 0 (digits[to_size_t i := to_char diff]))
      else digits)"
  by pat_completeness auto

definition op_sub_assign :: "BigInt \<Rightarrow> BigInt \<Rightarrow> error option \<times> BigInt" where
  "op_sub_assign self other =
     (if op_lt self other then (Some (underflow_error ''Result would be negative''), self)
      else (None, remove_leading_zeros (sub_loop other 0 0 self)))"

section \<open>Multiplication\<close>

text \<open>
  \<open>operator*=\<close> accumulates into a \<open>vector<int>\<close> of \<open>size + other.size\<close> zeros, carrying
  into the next position inside the inner loop, and then copies the vector into
  \<open>digits\<close> element by element. The positions \<open>i + j\<close> and \<open>i + j + 1\<close> are computed in
  \<open>int\<close>. The entries of the vector stay far below \<open>2 ^ 31\<close> (a product of two chars plus
  a carry), so their arithmetic is not wrapped.
\<close>

function mul_inner :: "int list \<Rightarrow> int list \<Rightarrow> int \<Rightarrow> int \<Rightarrow> int list \<Rightarrow> int list" where
  "mul_inner digits other i j result =
     (if to_size_t j < size_of other then
        (let k = to_size_t (to_int (i + j));
             k1 = to_size_t (to_int (to_int (i + j) + 1));
             result = result[k := result ! k + digits ! to_size_t i * other ! to_size_t j];
             result = result[k1 := result ! k1 + cdiv (result ! k) 10];
             result = result[k := cmod (result ! k) 10]
         in mul_inner digits other i (to_int (j + 1)) result)
      else result)"
  by pat_completeness auto

function mul_outer :: "int list \<Rightarrow> int list \<Rightarrow> int \<Rightarrow> int list \<Rightarrow> int list" where
  "mul_outer digits other i result =
     (if to_size_t i < size_of digits
      then mul_outer digits other (to_int (i + 1)) (mul_inner digits other i 0 result)
      else result)"
  by pat_completeness auto

definition op_mul_assign :: "BigInt \<Rightarrow> BigInt \<Rightarrow> BigInt" where
  "op_mul_assign self other =
     (if is_zero self \<or> is_zero other then BigInt_ull 0
      else remove_leading_zeros
             (map to_char
                (mul_outer self other 0
                   (replicate ((size_of self + size_of other) mod 18446744073709551616) 0))))"

section \<open>Non-member operators\<close>

text \<open>
  \<open>operator+\<close>, \<open>operator-\<close> and \<open>operator*\<close> take their left operand by value, apply the
  compound assignment to the copy and return it.
\<close>

definition op_add :: "BigInt \<Rightarrow> BigInt \<Rightarrow> BigInt option" where
  "op_add a b = op_add_assign a b"

definition op_sub :: "BigInt \<Rightarrow> BigInt \<Rightarrow> error + BigInt" where
  "op_sub a b = (case op_sub_assign a b of (Some e, a') \<Rightarrow> Inl e | (None, a') \<Rightarrow> Inr a')"

definition op_mul :: "BigInt \<Rightarrow> BigInt \<Rightarrow> BigInt" where
  "op_mul a b = op_mul_assign a b"

section \<open>Division and modulo\<close>

text \<open>
  The inner \<open>while (current_dividend >= divisor)\<close> loop of \<open>operator/=\<close> has no bound the
  code states, so it is a partial function: \<open>None\<close> is a run that does not return.
  Results are \<open>Some (Inl e)\<close> for a thrown exception and \<open>Some (Inr v)\<close> for a value.
  \<open>div_for\<close> is the outer loop, with the \<open>int i\<close> starting at \<open>digits.size() - 1\<close>;
  \<open>quotient'\<close> is the digit string of the local \<open>BigInt quotient\<close>.
\<close>

partial_function (option) div_while ::
    "BigInt \<Rightarrow> BigInt \<Rightarrow> int \<Rightarrow> (error + BigInt \<times> int) option" where
  "div_while current_dividend divisor count =
     (if op_ge current_dividend divisor then
        (case op_sub_assign current_dividend divisor of
           (Some e, current_dividend') \<Rightarrow> Some (Inl e)
         | (None, current_dividend') \<Rightarrow> div_while current_dividend' divisor (to_int (count + 1)))
      else Some (Inr (current_dividend, count)))"

function div_for ::
    "int list \<Rightarrow> BigInt \<Rightarrow> int \<Rightarrow> int list \<Rightarrow> BigInt \<Rightarrow> (error + int list) option" where
  "div_for digits divisor i quotient' current_dividend =
     (if 0 \<le> i then
        (case div_while (remove_leading_zeros (digits ! to_size_t i # current_dividend))
                divisor 0 of
           None \<Rightarrow> None
         | Some (Inl e) \<Rightarrow> Some (Inl e)
         | Some (Inr (current_dividend', count)) \<Rightarrow>
             div_for digits divisor (to_int (i - 1)) (quotient' @ [to_char count])
               current_dividend')
      else Some (Inr quotient'))"
  by pat_completeness auto

definition op_div_assign :: "BigInt \<Rightarrow> BigInt \<Rightarrow> (error + BigInt) option" where
  "op_div_assign self divisor =
     (if is_zero divisor then Some (Inl (runtime_error ''Division by zero!''))
      else if op_lt self divisor then Some (Inr (BigInt_ull 0))
      else if op_eq self divisor then Some (Inr (BigInt_ull 1))
      else (case div_for self divisor (to_int (int (size_of self) - 1))
                   (BigInt_ull 0) (BigInt_ull 0) of
              None \<Rightarrow> None
            | Some (Inl e) \<Rightarrow> Some (Inl e)
            | Some (Inr quotient') \<Rightarrow> Some (Inr (remove_leading_zeros (rev quotient')))))"

definition op_div :: "BigInt \<Rightarrow> BigInt \<Rightarrow> (error + BigInt) option" where
  "op_div a b = op_div_assign a b"

definition op_mod :: "BigInt \<Rightarrow> BigInt \<Rightarrow> (error + BigInt) option" where
  "op_mod self divisor =
     (if is_zero divisor then Some (Inl (runtime_error ''Modulo by zero!''))
      else (case op_div self divisor of
              None \<Rightarrow> None
            | Some (Inl e) \<Rightarrow> Some (Inl e)
            | Some (Inr quotient') \<Rightarrow>
                (case op_sub_assign self (op_mul quotient' divisor) of
                   (Some e, remainder) \<Rightarrow> Some (Inl e)
                 | (None, remainder) \<Rightarrow> Some (Inr remainder))))"

section \<open>Power and square root\<close>

text \<open>
  Modelled from the spec: \<open>pow\<close> advances its counter with \<open>++counter\<close>, and
  \<open>src/main.cpp\<close> declares no \<open>operator++\<close> for \<open>BigInt\<close>. The spec says the loop multiplies
  "once per unit of exponent, counting the iterations with an arbitrary-precision
  counter", so the increment adds the value one to the counter.
\<close>

definition op_incr :: "BigInt \<Rightarrow> BigInt option" where
  "op_incr counter = op_add_assign counter (BigInt_ull 1)"

partial_function (option) pow_while :: "BigInt \<Rightarrow> BigInt \<Rightarrow> BigInt \<Rightarrow> BigInt \<Rightarrow> BigInt option" where
  "pow_while self exponent result counter =
     (if op_lt counter exponent
      then (case op_incr counter of
              None \<Rightarrow> None
            | Some counter' \<Rightarrow> pow_while self exponent (op_mul_assign result self) counter')
      else Some result)"

definition pow :: "BigInt \<Rightarrow> BigInt \<Rightarrow> BigInt option" where
  "pow self exponent =
     (if is_zero exponent then Some (BigInt_ull 1)
      else pow_while self exponent (BigInt_ull 1) (BigInt_ull 0))"

partial_function (option) sqrt_while ::
    "BigInt \<Rightarrow> BigInt \<Rightarrow> BigInt \<Rightarrow> BigInt \<Rightarrow> (error + BigInt) option" where
  "sqrt_while self low high result =
     (if op_le low high then
        (case op_add low high of
           None \<Rightarrow> None
         | Some low_high \<Rightarrow>
             (case op_div low_high (BigInt_ull 2) of
                None \<Rightarrow> None
              | Some (Inl e) \<Rightarrow> Some (Inl e)
              | Some (Inr mid) \<Rightarrow>
                  (let mid_sq = op_mul mid mid in
                   if op_eq mid_sq self then Some (Inr mid)
                   else if op_lt mid_sq self
                   then (case op_add mid (BigInt_ull 1) of
                           None \<Rightarrow> None
                         | Some low' \<Rightarrow> sqrt_while self low' high mid)
                   else (case op_sub mid (BigInt_ull 1) of
                           Inl e \<Rightarrow> Some (Inl e)
                         | Inr high' \<Rightarrow> sqrt_while self low high' result))))
      else Some (Inr result))"

definition sqrt :: "BigInt \<Rightarrow> (error + BigInt) option" where
  "sqrt self =
     (if op_lt self (BigInt_ull 0)
      then Some (Inl (invalid_argument ''Square root of negative number''))
      else if is_zero self \<or> op_eq self (BigInt_ull 1) then Some (Inr self)
      else sqrt_while self (BigInt_ull 1) self (BigInt_ull 0))"

section \<open>Output\<close>

text \<open>
  \<open>operator<<\<close> writes every element of \<open>digits\<close>, from the last to the first, as an
  \<open>int\<close>. \<open>show_int\<close> is the decimal text the stream prints for an \<open>int\<close>.
\<close>

definition digit_char :: "nat \<Rightarrow> char" where
  "digit_char d = ''0123456789'' ! d"

function show_nat :: "nat \<Rightarrow> string" where
  "show_nat n = (if n < 10 then [digit_char n] else show_nat (n div 10) @ [digit_char (n mod 10)])"
  by pat_completeness auto
termination
  by (relation "measure (\<lambda>n. n)") auto

definition show_int :: "int \<Rightarrow> string" where
  "show_int x = (if x < 0 then CHR ''-'' # show_nat (nat (- x)) else show_nat (nat x))"

definition op_output :: "BigInt \<Rightarrow> string" where
  "op_output num = concat (map show_int (rev num))"

section \<open>Special mathematical functions\<close>

text \<open>
  The \<open>for (int i = 2; i <= n; ++i)\<close> loops of \<open>factorial\<close> and \<open>fibonacci\<close> count with a
  native \<open>int\<close>; with \<open>n\<close> the largest \<open>int\<close> the condition never fails, so the loops are
  partial functions. \<open>BigInt(i)\<close> converts the \<open>int\<close> to \<open>unsigned long long\<close>.
  In \<open>catalan\<close> the three calls of \<open>factorial\<close> can only throw the same exception, so the
  order in which the operands of \<open>*\<close> are evaluated does not show in the result.
\<close>

partial_function (option) factorial_for :: "int \<Rightarrow> int \<Rightarrow> BigInt \<Rightarrow> BigInt option" where
  "factorial_for n i result =
     (if i \<le> n
      then factorial_for n (to_int (i + 1)) (op_mul_assign result (BigInt_ull (to_ull i)))
      else Some result)"

definition factorial :: "int \<Rightarrow> (error + BigInt) option" where
  "factorial n =
     (if n < 0 then Some (Inl (invalid_argument ''Negative factorial''))
      else map_option Inr (factorial_for n 2 (BigInt_ull 1)))"

partial_function (option) fibonacci_for :: "int \<Rightarrow> int \<Rightarrow> BigInt \<Rightarrow> BigInt \<Rightarrow> BigInt option" where
  "fibonacci_for n i a b =
     (if i \<le> n
      then (case op_add a b of
              None \<Rightarrow> None
            | Some next \<Rightarrow> fibonacci_for n (to_int (i + 1)) b next)
      else Some b)"

definition fibonacci :: "int \<Rightarrow> BigInt option" where
  "fibonacci n =
     (if n = 0 then Some (BigInt_ull 0)
      else fibonacci_for n 2 (BigInt_ull 0) (BigInt_ull 1))"

definition catalan :: "int \<Rightarrow> (error + BigInt) option" where
  "catalan n =
     (if n < 0 then Some (Inl (invalid_argument ''Negative Catalan number''))
      else (case factorial (to_int (2 * n)) of
              None \<Rightarrow> None
            | Some (Inl e) \<Rightarrow> Some (Inl e)
            | Some (Inr num) \<Rightarrow>
                (case factorial (to_int (n + 1)) of
                   None \<Rightarrow> None
                 | Some (Inl e) \<Rightarrow> Some (Inl e)
                 | Some (Inr f1) \<Rightarrow>
                     (case factorial n of
                        None \<Rightarrow> None
                      | Some (Inl e) \<Rightarrow> Some (Inl e)
                      | Some (Inr f0) \<Rightarrow> op_div num (op_mul f1 f0)))))"

section \<open>Digit strings as numbers\<close>

text \<open>
  The properties below are stated with notions that are not part of the source:
  \<open>digit\<close> (a decimal digit), \<open>canonical\<close> (the representation invariant of the data
  model: non-empty, every element a digit, no most-significant zero except for the
  single digit 0) and \<open>val\<close> (the number a least-significant-first digit string stands
  for). \<open>row_inv\<close> is the loop invariant of the multiplication. A string is \<open>short\<close>
  when its size is a value of \<open>int\<close>, so that an \<open>int\<close> counter reaches every position
  of it and its end without wrapping.
\<close>

definition short :: "'a list \<Rightarrow> bool" where
  "short xs = (length xs \<le> 2147483647)"

definition digit :: "int \<Rightarrow> bool" where
  "digit d = (0 \<le> d \<and> d \<le> 9)"

definition canonical :: "BigInt \<Rightarrow> bool" where
  "canonical digits =
     (digits \<noteq> [] \<and> list_all digit digits \<and> (length digits = 1 \<or> 0 < last digits))"

fun val :: "int list \<Rightarrow> int" where
  "val [] = 0"
| "val (d # ds) = d + 10 * val ds"

definition row_inv :: "nat \<Rightarrow> nat \<Rightarrow> nat \<Rightarrow> int list \<Rightarrow> bool" where
  "row_inv m i j r =
     ((\<forall>k<length r. 0 \<le> r ! k \<and> r ! k \<le> (if k = i + j \<and> j < m then 18 else 9)) \<and>
      (\<forall>k<length r. i + m \<le> k \<and> i + j < k \<longrightarrow> r ! k = 0))"

text \<open>The digit the string constructor stores for a character: \<open>valid_part[i] - '0'\<close>.\<close>

definition digit_of_char :: "char \<Rightarrow> int" where
  "digit_of_char c = to_char (char_val c - char_val CHR ''0'')"

section \<open>Termination of the loops\<close>

text \<open>
  The counted loops end although their counters wrap around. A counter that runs down
  while \<open>i >= 0\<close> makes at most \<open>down_count i\<close> steps. A counter that runs up while its
  conversion to \<open>size_t\<close> is below a size makes at most \<open>up_count i\<close> steps: after wrapping
  it reaches \<open>-1\<close> at the latest, which converts to the largest \<open>size_t\<close>. The two
  measures are not part of the source.
\<close>

definition down_count :: "int \<Rightarrow> nat" where
  "down_count i =
     (if 0 \<le> i \<and> i \<le> 2147483647 then nat i + 1
      else if 2147483647 < i then 2147483649 else 0)"

definition up_count :: "int \<Rightarrow> nat" where
  "up_count i =
     (if 0 \<le> i \<and> i \<le> 2147483647 then nat (4294967296 - i)
      else if - 2147483648 \<le> i \<and> i < 0 then nat (- i) else 4294967297)"

lemma down_count_step: "0 \<le> i \<Longrightarrow> down_count (to_int (i - 1)) < down_count i"
proof (cases "i \<le> 2147483647")
  case True
  assume "0 \<le> i"
  with True have "to_int (i - 1) = i - 1" by (simp add: to_int_def)
  with True \<open>0 \<le> i\<close> show ?thesis by (simp add: down_count_def)
next
  case False
  have "0 \<le> (i - 1 + 2147483648) mod 4294967296"
    "(i - 1 + 2147483648) mod 4294967296 < 4294967296"
    by simp_all
  then have "to_int (i - 1) \<le> 2147483647" unfolding to_int_def by linarith
  then have "down_count (to_int (i - 1)) \<le> 2147483648" by (auto simp: down_count_def)
  moreover from False have "down_count i = 2147483649" by (simp add: down_count_def)
  ultimately show ?thesis by simp
qed

lemma up_count_step:
  assumes "to_size_t i < size_of xs"
  shows "up_count (to_int (i + 1)) < up_count i"
proof -
  have s: "size_of xs < 18446744073709551616" by (simp add: size_of_def)
  have r: "- 2147483648 \<le> to_int (i + 1)" "to_int (i + 1) \<le> 2147483647"
  proof -
    have "0 \<le> (i + 1 + 2147483648) mod 4294967296"
      "(i + 1 + 2147483648) mod 4294967296 < 4294967296"
      by simp_all
    then show "- 2147483648 \<le> to_int (i + 1)" "to_int (i + 1) \<le> 2147483647"
      unfolding to_int_def by linarith+
  qed
  consider "0 \<le> i" "i < 2147483647" | "i = 2147483647" | "- 2147483648 \<le> i" "i < - 1"
    | "i = - 1" | "2147483647 < i \<or> i < - 2147483648"
    by linarith
  then show ?thesis
  proof cases
    case 1
    then have "to_int (i + 1) = i + 1" by (simp add: to_int_def)
    with 1 show ?thesis by (simp add: up_count_def)
  next
    case 2
    then show ?thesis by (simp add: to_int_def up_count_def)
  next
    case 3
    then have "to_int (i + 1) = i + 1" by (simp add: to_int_def)
    with 3 show ?thesis by (simp add: up_count_def)
  next
    case 4
    with assms s show ?thesis by (simp add: to_size_t_def)
  next
    case 5
    then have "up_count i = 4294967297" by (auto simp: up_count_def)
    moreover have "up_count (to_int (i + 1)) \<le> 4294967296"
      using r by (auto simp: up_count_def)
    ultimately show ?thesis by simp
  qed
qed

termination BigInt_str_loop
  by (relation "measure (\<lambda>(valid_part, i, digits). down_count i)")
    (auto intro: down_count_step)

termination lt_loop
  by (relation "measure (\<lambda>(a, b, i). down_count i)") (auto intro: down_count_step)

termination sub_loop
  by (relation "measure (\<lambda>(other, i, borrow, digits). up_count i)")
    (auto intro: up_count_step)

termination mul_inner
  by (relation "measure (\<lambda>(digits, other, i, j, result). up_count j)")
    (auto intro: up_count_step)

termination mul_outer
  by (relation "measure (\<lambda>(digits, other, i, result). up_count i)")
    (auto intro: up_count_step)

termination div_for
  by (relation "measure (\<lambda>(digits, divisor, i, quotient', current_dividend). down_count i)")
    (auto intro: down_count_step)

text \<open>
  The defining equations of the loops are unfolded by hand, one iteration at a time.
\<close>

declare BigInt_ull_loop.simps [simp del] remove_leading_zeros.simps [simp del]
  sub_loop.simps [simp del] mul_inner.simps [simp del] mul_outer.simps [simp del]
  show_nat.simps [simp del] BigInt_str_loop.simps [simp del] lt_loop.simps [simp del]
  div_for.simps [simp del]

section \<open>Basic facts\<close>

subsection \<open>Native arithmetic on small numbers\<close>

lemma to_char_id: "- 128 \<le> x \<Longrightarrow> x < 128 \<Longrightarrow> to_char x = x"
  by (simp add: to_char_def)

lemma to_char_digit: "digit d \<Longrightarrow> to_char d = d"
  by (simp add: to_char_id digit_def)

lemma to_int_id: "- 2147483648 \<le> x \<Longrightarrow> x < 2147483648 \<Longrightarrow> to_int x = x"
  by (simp add: to_int_def)

lemma to_ull_id: "0 \<le> x \<Longrightarrow> x < 18446744073709551616 \<Longrightarrow> to_ull x = nat x"
  by (simp add: to_ull_def)

lemma cdiv_nonneg: "0 \<le> a \<Longrightarrow> cdiv a 10 = a div 10"
  by (simp add: cdiv_def)

lemma cmod_nonneg: "0 \<le> a \<Longrightarrow> cmod a 10 = a mod 10"
  by (simp add: cmod_def cdiv_nonneg minus_div_mult_eq_mod)

lemma cmod_cdiv: "cmod a 10 + 10 * cdiv a 10 = a"
  by (simp add: cmod_def)

lemma cmod_bounds: "- 9 \<le> cmod a 10 \<and> cmod a 10 \<le> 9"
proof (cases "0 \<le> a")
  case True
  have "0 \<le> a mod 10" "a mod 10 < 10" by simp_all
  then show ?thesis unfolding cmod_nonneg [OF True] by linarith
next
  case False
  then have "cmod a 10 = - ((- a) mod 10)"
    by (simp add: cmod_def cdiv_def minus_div_mult_eq_mod [symmetric] algebra_simps)
  moreover have "0 \<le> (- a) mod 10" "(- a) mod 10 < 10" by simp_all
  ultimately show ?thesis by linarith
qed

lemma to_char_cmod: "to_char (cmod a 10) = cmod a 10"
  using cmod_bounds [of a] by (simp add: to_char_id)

subsection \<open>The number a digit string stands for\<close>

lemma val_append: "val (xs @ ys) = val xs + 10 ^ length xs * val ys"
  by (induction xs) (simp_all add: algebra_simps)

lemma val_update: "i < length xs \<Longrightarrow> val (xs[i := v]) = val xs + (v - xs ! i) * 10 ^ i"
proof (induction xs arbitrary: i)
  case Nil
  then show ?case by simp
next
  case (Cons x xs)
  show ?case
  proof (cases i)
    case 0
    then show ?thesis by simp
  next
    case (Suc n)
    with Cons.prems have "n < length xs" by simp
    from Cons.IH [OF this] Suc show ?thesis by (simp add: algebra_simps)
  qed
qed

lemma val_drop: "i < length xs \<Longrightarrow> val (drop i xs) = xs ! i + 10 * val (drop (Suc i) xs)"
  by (simp flip: Cons_nth_drop_Suc)

lemma val_take_Suc: "i < length xs \<Longrightarrow> val (take (Suc i) xs) = val (take i xs) + 10 ^ i * xs ! i"
  by (simp add: take_Suc_conv_app_nth val_append)

lemma val_replicate_zero: "val (replicate n 0) = 0"
  by (induction n) simp_all

lemma val_nonneg: "list_all digit xs \<Longrightarrow> 0 \<le> val xs"
  by (induction xs) (simp_all add: digit_def)

lemma val_upper: "list_all digit xs \<Longrightarrow> val xs < 10 ^ length xs"
  by (induction xs) (simp_all add: digit_def)

lemma digits_inj:
  "list_all digit xs \<Longrightarrow> list_all digit ys \<Longrightarrow> length xs = length ys \<Longrightarrow> val xs = val ys
   \<Longrightarrow> xs = ys"
proof (induction xs arbitrary: ys)
  case Nil
  then show ?case by simp
next
  case (Cons x xs)
  then obtain y ys' where ys: "ys = y # ys'" by (cases ys) auto
  from Cons.prems ys have eq: "x + 10 * val xs = y + 10 * val ys'"
    and bx: "0 \<le> x" "x \<le> 9" and "by": "0 \<le> y" "y \<le> 9"
    by (simp_all add: digit_def)
  then have "x = y" "val xs = val ys'" by presburger+
  with Cons ys show ?case by simp
qed

subsection \<open>Canonical digit strings\<close>

lemma canonical_digits: "canonical xs \<Longrightarrow> list_all digit xs"
  by (simp add: canonical_def)

lemma canonical_nonempty: "canonical xs \<Longrightarrow> xs \<noteq> []"
  by (simp add: canonical_def)

lemma canonical_val_nonneg: "canonical xs \<Longrightarrow> 0 \<le> val xs"
  by (simp add: canonical_def val_nonneg)

lemma canonical_val_upper: "canonical xs \<Longrightarrow> val xs < 10 ^ length xs"
  by (simp add: canonical_def val_upper)

lemma val_butlast: "xs \<noteq> [] \<Longrightarrow> val xs = val (butlast xs) + 10 ^ (length xs - 1) * last xs"
  using val_append [of "butlast xs" "[last xs]"] by simp

lemma canonical_val_lower:
  assumes "canonical xs" and "1 < length xs"
  shows "10 ^ (length xs - 1) \<le> val xs"
proof -
  from assms have ne: "xs \<noteq> []" and l: "1 \<le> last xs" and d: "list_all digit (butlast xs)"
    by (auto simp: canonical_def list_all_iff dest: in_set_butlastD)
  have "(10::int) ^ (length xs - 1) \<le> 10 ^ (length xs - 1) * last xs"
    using l by simp
  with val_butlast [OF ne] val_nonneg [OF d] show ?thesis by linarith
qed

lemma canonicalI:
  assumes "xs \<noteq> []" and "list_all digit xs"
    and "length xs = 1 \<or> 10 ^ (length xs - 1) \<le> val xs"
  shows "canonical xs"
proof (cases "length xs = 1")
  case True
  with assms show ?thesis by (simp add: canonical_def)
next
  case False
  with assms have low: "10 ^ (length xs - 1) \<le> val xs" by simp
  have d: "list_all digit (butlast xs)"
    using assms(2) by (auto simp: list_all_iff dest: in_set_butlastD)
  have "last xs \<noteq> 0"
  proof
    assume "last xs = 0"
    with val_butlast [OF assms(1)] have "val xs = val (butlast xs)" by simp
    with val_upper [OF d] low show False by simp
  qed
  moreover have "digit (last xs)"
    using assms(1,2) by (simp add: list_all_iff)
  ultimately have "0 < last xs" by (simp add: digit_def)
  with assms show ?thesis by (simp add: canonical_def)
qed

lemma canonical_length_less:
  assumes "canonical a" and "canonical b" and "length a < length b"
  shows "val a < val b"
proof -
  from assms have "1 < length b"
    by (cases a) (auto simp: canonical_def)
  from canonical_val_lower [OF assms(2) this] have "10 ^ (length b - 1) \<le> val b" .
  moreover have "(10::int) ^ length a \<le> 10 ^ (length b - 1)"
    using assms(3) by (intro power_increasing) simp_all
  ultimately show ?thesis using canonical_val_upper [OF assms(1)] by linarith
qed

lemma canonical_length_eq:
  assumes "canonical a" and "canonical b" and "val a = val b"
  shows "length a = length b"
  using canonical_length_less [OF assms(1,2)] canonical_length_less [OF assms(2,1)] assms(3)
  by (cases "length a < length b"; cases "length b < length a") simp_all

lemma canonical_inj: "canonical a \<Longrightarrow> canonical b \<Longrightarrow> val a = val b \<Longrightarrow> a = b"
  using canonical_length_eq digits_inj canonical_digits by blast

lemma canonical_zero: "canonical a \<Longrightarrow> val a = 0 \<Longrightarrow> a = [0]"
  by (rule canonical_inj) (simp_all add: canonical_def digit_def)

lemma is_zero_val: "canonical a \<Longrightarrow> is_zero a \<longleftrightarrow> val a = 0"
proof
  assume "is_zero a"
  then show "val a = 0" by (cases a) (simp_all add: is_zero_def)
next
  assume "canonical a" "val a = 0"
  then have "a = [0]" by (rule canonical_zero)
  then show "is_zero a" by (simp add: is_zero_def)
qed

subsection \<open>\<open>remove_leading_zeros\<close>\<close>

lemma remove_leading_zeros_strip:
  "1 < length ds \<Longrightarrow> last ds = 0 \<Longrightarrow> remove_leading_zeros ds = remove_leading_zeros (butlast ds)"
  by (auto simp: remove_leading_zeros.simps [of ds])

lemma remove_leading_zeros_stop:
  "\<not> (1 < length ds \<and> last ds = 0) \<Longrightarrow> remove_leading_zeros ds = ds"
  by (auto simp: remove_leading_zeros.simps [of ds])

lemma val_remove_leading_zeros: "val (remove_leading_zeros xs) = val xs"
proof (induction xs rule: remove_leading_zeros.induct)
  case (1 digits)
  show ?case
  proof (cases "1 < length digits \<and> last digits = 0")
    case True
    then have "digits \<noteq> []" by auto
    from val_butlast [OF this] True 1 show ?thesis
      by (simp add: remove_leading_zeros_strip)
  next
    case False
    show ?thesis unfolding remove_leading_zeros_stop [OF False] ..
  qed
qed

lemma canonical_remove_leading_zeros:
  "xs \<noteq> [] \<Longrightarrow> list_all digit xs \<Longrightarrow> canonical (remove_leading_zeros xs)"
proof (induction xs rule: remove_leading_zeros.induct)
  case (1 digits)
  show ?case
  proof (cases "1 < length digits \<and> last digits = 0")
    case True
    then have "butlast digits \<noteq> []" by (cases digits) auto
    moreover have "list_all digit (butlast digits)"
      using "1.prems"(2) by (auto simp: list_all_iff dest: in_set_butlastD)
    ultimately show ?thesis using True "1.IH"
      by (simp add: remove_leading_zeros_strip)
  next
    case False
    moreover have "digit (last digits)"
      using "1.prems" by (simp add: list_all_iff)
    ultimately have "length digits = 1 \<or> 0 < last digits"
      using "1.prems"(1) by (cases digits) (auto simp: digit_def)
    with "1.prems" show ?thesis
      unfolding remove_leading_zeros_stop [OF False] by (simp add: canonical_def)
  qed
qed

lemma remove_leading_zeros_canonical: "canonical xs \<Longrightarrow> remove_leading_zeros xs = xs"
  by (rule remove_leading_zeros_stop) (auto simp: canonical_def)

subsection \<open>Construction from a native unsigned integer\<close>

lemma BigInt_ull_loop_acc: "BigInt_ull_loop n ds = ds @ BigInt_ull_loop n []"
proof (induction n arbitrary: ds rule: less_induct)
  case (less n)
  show ?case
  proof (cases "0 < n div 10")
    case True
    then have "n div 10 < n" by simp
    from less [OF this, of "ds @ [to_char (int (n mod 10))]"]
      less [OF this, of "[to_char (int (n mod 10))]"] True
    show ?thesis
      by (simp add: BigInt_ull_loop.simps [of n ds] BigInt_ull_loop.simps [of n "[]"])
  next
    case False
    then show ?thesis
      by (simp add: BigInt_ull_loop.simps [of n ds] BigInt_ull_loop.simps [of n "[]"])
  qed
qed

lemma BigInt_ull_unfold:
  "BigInt_ull n = int (n mod 10) # (if 0 < n div 10 then BigInt_ull (n div 10) else [])"
proof -
  have "to_char (int (n mod 10)) = int (n mod 10)"
    by (rule to_char_id) simp_all
  then show ?thesis
    using BigInt_ull_loop_acc [of "n div 10" "[int (n mod 10)]"]
    by (cases "0 < n div 10") (simp_all add: BigInt_ull_def BigInt_ull_loop.simps [of n "[]"])
qed

lemma BigInt_ull_small: "n < 10 \<Longrightarrow> BigInt_ull n = [int n]"
  by (simp add: BigInt_ull_unfold [of n])

lemma val_BigInt_ull: "val (BigInt_ull n) = int n"
proof (induction n rule: less_induct)
  case (less n)
  show ?case
  proof (cases "0 < n div 10")
    case True
    then have "n div 10 < n" by simp
    from less [OF this] True have "val (BigInt_ull n) = int (n mod 10) + 10 * int (n div 10)"
      by (simp add: BigInt_ull_unfold [of n])
    also have "\<dots> = int n" by presburger
    finally show ?thesis .
  next
    case False
    then show ?thesis by (simp add: BigInt_ull_unfold [of n])
  qed
qed

lemma canonical_Cons:
  assumes "digit d" and "canonical ds" and "val ds \<noteq> 0"
  shows "canonical (d # ds)"
proof -
  from assms(2) have ne: "ds \<noteq> []" and dg: "list_all digit ds"
    by (simp_all add: canonical_def)
  have "0 < last ds"
  proof (cases "length ds = 1")
    case True
    then obtain x where "ds = [x]" by (cases ds) auto
    with assms(3) dg show ?thesis by (simp add: digit_def)
  next
    case False
    with assms(2) show ?thesis by (simp add: canonical_def)
  qed
  with ne dg assms(1) show ?thesis by (simp add: canonical_def)
qed

lemma canonical_single: "digit d \<Longrightarrow> canonical [d]"
  by (simp add: canonical_def)

lemma canonical_BigInt_ull: "canonical (BigInt_ull n)"
proof (induction n rule: less_induct)
  case (less n)
  have d: "digit (int (n mod 10))" by (simp add: digit_def)
  show ?case
  proof (cases "0 < n div 10")
    case True
    then have "n div 10 < n" by simp
    from less [OF this] have "canonical (BigInt_ull (n div 10))" .
    moreover from True have "val (BigInt_ull (n div 10)) \<noteq> 0" by (simp add: val_BigInt_ull)
    ultimately have "canonical (int (n mod 10) # BigInt_ull (n div 10))"
      using d by (intro canonical_Cons)
    with True show ?thesis by (simp add: BigInt_ull_unfold [of n])
  next
    case False
    with d show ?thesis by (simp add: BigInt_ull_unfold [of n] canonical_single)
  qed
qed

lemma BigInt_ull_zero: "BigInt_ull 0 = [0]"
  by (simp add: BigInt_ull_small)

lemma BigInt_ull_one: "BigInt_ull 1 = [1]"
  by (simp add: BigInt_ull_small)

lemma BigInt_ull_Suc_0: "BigInt_ull (Suc 0) = [1]"
  by (simp add: BigInt_ull_small)

lemma BigInt_ull_two: "BigInt_ull 2 = [2]"
  by (simp add: BigInt_ull_small)

lemmas BigInt_ull_consts = BigInt_ull_zero BigInt_ull_one BigInt_ull_Suc_0 BigInt_ull_two

subsection \<open>Output\<close>

lemma show_nat_small: "n < 10 \<Longrightarrow> show_nat n = [digit_char n]"
  by (subst show_nat.simps) simp

lemma show_nat_large: "10 \<le> n \<Longrightarrow> show_nat n = show_nat (n div 10) @ [digit_char (n mod 10)]"
  by (subst show_nat.simps) simp

lemma show_int_digit: "show_int (int (n mod 10)) = [digit_char (n mod 10)]"
  by (simp add: show_int_def show_nat_small)

lemma op_output_Cons: "op_output (d # ds) = op_output ds @ show_int d"
  by (simp add: op_output_def)

text \<open>
  C9: for every native unsigned integer \<open>x\<close>, writing the value constructed from \<open>x\<close> gives
  the decimal text of \<open>x\<close>; the do-while loop runs once for zero, whose digit string is
  the single digit 0.
\<close>

theorem C9_construct_output:
  "op_output (BigInt_ull x) = show_nat x \<and> BigInt_ull 0 = [0]"
proof
  show "op_output (BigInt_ull x) = show_nat x"
  proof (induction x rule: less_induct)
    case (less n)
    show ?case
    proof (cases "0 < n div 10")
      case True
      then have "n div 10 < n" and "10 \<le> n" by simp_all
      with less [OF this(1)] True show ?thesis
        by (simp add: BigInt_ull_unfold [of n] op_output_Cons show_int_digit show_nat_large)
    next
      case False
      then have "n < 10" by simp
      then show ?thesis
        by (simp add: BigInt_ull_small op_output_def show_int_def show_nat_small)
    qed
  qed
  show "BigInt_ull 0 = [0]" by (simp add: BigInt_ull_small)
qed

theorem C9_construct_output_witness:
  "op_output (BigInt_ull 1024) = ''1024'' \<and> BigInt_ull 0 = [0]"
  using C9_construct_output [of 1024]
  by (simp add: show_nat.simps digit_char_def)

text \<open>
  C10: \<open>fibonacci\<close> has no guard for a negative argument: for every negative \<open>n\<close> the test
  \<open>n == 0\<close> fails, the loop body never runs, and the call returns \<open>b\<close>, the value one, as
  it does for \<open>n = 1\<close>. No exception is thrown.
\<close>

theorem C10_fibonacci_negative:
  "n < 0 \<Longrightarrow> fibonacci n = Some [1] \<and> fibonacci n = fibonacci 1"
  by (simp add: fibonacci_def fibonacci_for.simps [of _ 2] BigInt_ull_small)

theorem C10_fibonacci_negative_witness:
  "fibonacci (- 3) = Some [1] \<and> fibonacci (- 3) = fibonacci 1"
  by (rule C10_fibonacci_negative) simp

section \<open>The zero parsed from a text\<close>

lemma find_first_not_of_None: "find_first_not_of s c = None \<longleftrightarrow> (\<forall>x\<in>set s. x = c)"
  by (induction s) auto

lemma BigInt_str_all_zero:
  "\<forall>x\<in>set s. x = CHR ''0'' \<Longrightarrow> BigInt_str s = Inr [48]"
  by (simp add: BigInt_str_def find_first_not_of_None [THEN iffD2] char_val_def to_char_def)

text \<open>
  C1, at the input where the code departs from it: for the text \<open>"0"\<close> (as for the empty
  text and for any text of zeros only) the string constructor stores the character
  \<open>'0'\<close>, the number 48, which is not a digit; the value is not canonical and \<open>is_zero\<close>
  does not recognise it, while the integer constructor stores the digit 0 for zero.
\<close>

theorem C1_string_zero_not_canonical:
  "BigInt_str ''0'' = Inr [48] \<and> BigInt_str ''000'' = Inr [48] \<and> BigInt_str '''' = Inr [48] \<and>
   \<not> canonical [48] \<and> \<not> is_zero [48] \<and> BigInt_ull 0 = [0] \<and> canonical [0]"
  by (simp add: BigInt_str_all_zero canonical_def digit_def is_zero_def BigInt_ull_zero)

text \<open>
  C2, at the input where the code departs from it: parsing \<open>"0"\<close> and writing the result
  gives \<open>"48"\<close>.
\<close>

theorem C2_zero_round_trip_fails:
  "BigInt_str ''0'' = Inr [48] \<and> op_output [48] = ''48'' \<and> op_output [48] \<noteq> ''0''"
  by (simp add: BigInt_str_all_zero op_output_def show_int_def show_nat.simps digit_char_def)

text \<open>
  The operators applied to the zero a text gives. The equations below run the operators
  on given digit strings.
\<close>

lemma replicate_numeral: "replicate (numeral k) x = x # replicate (pred_numeral k) x"
  by (simp add: numeral_eq_Suc)

lemma list_update_Cons_numeral: "(x # xs)[numeral k := y] = x # xs[pred_numeral k := y]"
  by (simp add: numeral_eq_Suc)

lemmas eval_simps = op_div_def op_div_assign_def op_mod_def op_mul_def op_mul_assign_def
  op_add_def op_add_assign_def op_sub_def op_sub_assign_def is_zero_def op_lt_def op_eq_def
  op_ge_def op_le_def op_gt_def op_incr_def BigInt_ull_small div_while.simps
  remove_leading_zeros.simps sub_loop.simps add_loop.simps mul_inner.simps mul_outer.simps
  lt_loop.simps div_for.simps Let_def to_char_def to_int_def to_size_t_def size_of_def
  length_BigInt_def cdiv_def cmod_def replicate_numeral list_update_Cons_numeral

lemmas output_simps = op_output_def show_int_def show_nat.simps digit_char_def

text \<open>
  C3, at an input where the code departs from it: with \<open>a\<close> the value parsed from \<open>"0"\<close> and
  \<open>b\<close> the value three, \<open>a / b\<close> is the single element 16 (the loop subtracts 3 from 48
  sixteen times), and \<open>a % b\<close> throws \<open>underflow_error\<close>, because \<open>(a / b) * b\<close> has two
  digits and \<open>a\<close> one. The division-remainder law needs \<open>a % b\<close> to be a value.
\<close>

theorem C3_zero_text_division_remainder:
  "BigInt_str ''0'' = Inr [48] \<and> BigInt_ull 3 = [3] \<and> \<not> is_zero [3] \<and>
   op_div [48] [3] = Some (Inr [16]) \<and> op_mul [16] [3] = [8, 4] \<and>
   op_mod [48] [3] = Some (Inl (underflow_error ''Result would be negative''))"
  by (simp add: BigInt_str_all_zero eval_simps cong: prod.case_cong_weak)

text \<open>
  C4, at inputs where the code departs from it. With the receiver zero (from the integer
  0) and the argument zero (parsed from \<open>"0"\<close>), \<open>self < other\<close> is false of the numbers,
  yet subtract-into throws \<open>underflow_error\<close>. With the receiver the zero parsed from
  \<open>"0"\<close> and the argument five, \<open>self < other\<close> is true of the numbers, yet subtract-into
  does not throw and leaves the receiver printing as 43.
\<close>

theorem C4_zero_text_subtract_into:
  "BigInt_ull 0 = [0] \<and> BigInt_str ''0'' = Inr [48] \<and> BigInt_ull 5 = [5] \<and>
   op_sub_assign [0] [48] = (Some (underflow_error ''Result would be negative''), [0]) \<and>
   op_sub_assign [48] [5] = (None, [43]) \<and> op_output [43] = ''43''"
  by (simp add: BigInt_str_all_zero eval_simps output_simps cong: prod.case_cong_weak)

text \<open>
  C5, at an input where the code departs from it: the square root of the zero parsed
  from \<open>"0"\<close> is three, and \<open>3 * 3 = 9\<close> is not at most zero. The zero built from the
  integer 0 has the square root zero.
\<close>

theorem C5_zero_text_sqrt:
  "BigInt_str ''0'' = Inr [48] \<and> sqrt [48] = Some (Inr [3]) \<and> op_output [3] = ''3'' \<and>
   op_mul [3] [3] = [9] \<and> sqrt (BigInt_ull 0) = Some (Inr [0])"
  by (simp add: BigInt_str_all_zero eval_simps output_simps sqrt_def sqrt_while.simps
      cong: prod.case_cong_weak)

text \<open>
  C6, at an input where the code departs from it: with the exponent the zero parsed from
  \<open>"0"\<close>, \<open>is_zero\<close> is false and the counter stays below the element 48 for ten rounds
  (until it has two digits), so \<open>pow\<close> returns \<open>2 ^ 10 = 1024\<close> for the base two, not one.
  With the exponent zero built from the integer 0 it returns one.
\<close>

theorem C6_zero_text_pow:
  "BigInt_str ''0'' = Inr [48] \<and> BigInt_ull 2 = [2] \<and> pow [2] [48] = Some [4, 2, 0, 1] \<and>
   op_output [4, 2, 0, 1] = ''1024'' \<and> pow [2] (BigInt_ull 0) = Some [1]"
  by (simp add: BigInt_str_all_zero eval_simps output_simps pow_def pow_while.simps
      cong: prod.case_cong_weak)

text \<open>
  C7, at inputs where the code departs from it: with the divisor the zero parsed from
  \<open>"0"\<close>, neither division nor modulo throws. \<open>7 / 0\<close> returns zero and \<open>7 % 0\<close> returns
  seven; \<open>100 / 0\<close> returns the elements 1 and 18, printed as 118. With the divisor zero
  built from the integer 0 both throw \<open>runtime_error\<close>.
\<close>

theorem C7_zero_text_divisor:
  "BigInt_str ''0'' = Inr [48] \<and> \<not> is_zero [48] \<and>
   op_div [7] [48] = Some (Inr [0]) \<and> op_mod [7] [48] = Some (Inr [7]) \<and>
   op_div [0, 0, 1] [48] = Some (Inr [18, 1]) \<and> op_output [18, 1] = ''118'' \<and>
   op_div [7] (BigInt_ull 0) = Some (Inl (runtime_error ''Division by zero!'')) \<and>
   op_mod [7] (BigInt_ull 0) = Some (Inl (runtime_error ''Modulo by zero!''))"
  by (simp add: BigInt_str_all_zero eval_simps output_simps cong: prod.case_cong_weak)

section \<open>Counters within the range of int\<close>

lemma short_size_of: "short xs \<Longrightarrow> size_of xs = length xs"
  by (simp add: short_def size_of_def)

lemma to_size_t_nat: "i \<le> 2147483648 \<Longrightarrow> to_size_t (int i) = i"
proof -
  assume "i \<le> 2147483648"
  then have "int i mod 18446744073709551616 = int i" by simp
  then show ?thesis by (simp add: to_size_t_def)
qed

lemma to_int_nat: "i \<le> 2147483647 \<Longrightarrow> to_int (int i) = int i"
  by (rule to_int_id) simp_all

lemma to_int_succ: "i < 2147483647 \<Longrightarrow> to_int (int i + 1) = int (i + 1)"
  by (simp add: to_int_id)

lemma to_int_pred: "i \<le> 2147483648 \<Longrightarrow> to_int (int i - 1) = int i - 1"
  by (rule to_int_id) simp_all

lemma short_trans: "short ys \<Longrightarrow> length xs \<le> length ys \<Longrightarrow> short xs"
  by (simp add: short_def)

subsection \<open>Comparison\<close>

lemma digit_cmp:
  fixes p :: int
  assumes "0 \<le> x" "x < p" "0 \<le> y" "y < p" "c < d"
  shows "x + p * c < y + p * d"
proof -
  from assms have "0 \<le> p" by simp
  with assms(5) have "p * (c + 1) \<le> p * d" by (intro mult_left_mono) simp_all
  then have "p * c + p \<le> p * d" by (simp add: algebra_simps)
  with assms show ?thesis by linarith
qed

lemma list_all_take: "list_all P xs \<Longrightarrow> list_all P (take k xs)"
  by (auto simp: list_all_iff dest: in_set_takeD)

lemma lt_loop_stop: "lt_loop a b (- 1) = False"
  by (subst lt_loop.simps) simp

lemma lt_loop_step:
  assumes "k \<le> 2147483647"
  shows "lt_loop a b (int k) =
         (if a ! k \<noteq> b ! k then a ! k < b ! k else lt_loop a b (int k - 1))"
proof -
  have "to_size_t (int k) = k" using assms by (intro to_size_t_nat) simp
  moreover have "to_int (int k - 1) = int k - 1" using assms by (intro to_int_pred) simp
  ultimately show ?thesis by (subst lt_loop.simps) simp
qed

lemma lt_loop_val:
  assumes "list_all digit a" and "list_all digit b" and "length a = length b" and "short a"
    and "k \<le> length a"
  shows "lt_loop a b (int k - 1) \<longleftrightarrow> val (take k a) < val (take k b)"
  using assms(5)
proof (induction k)
  case 0
  then show ?case by (simp add: lt_loop_stop)
next
  case (Suc k)
  then have k: "k < length a" "k < length b" using assms(3) by simp_all
  with assms(4) have k31: "k \<le> 2147483647" by (simp add: short_def)
  let ?x = "val (take k a)" and ?y = "val (take k b)"
  have bx: "0 \<le> ?x" "?x < 10 ^ k" and "by": "0 \<le> ?y" "?y < 10 ^ k"
    using val_nonneg [OF list_all_take [OF assms(1)], of k]
      val_upper [OF list_all_take [OF assms(1)], of k]
      val_nonneg [OF list_all_take [OF assms(2)], of k]
      val_upper [OF list_all_take [OF assms(2)], of k] k
    by simp_all
  have ta: "val (take (Suc k) a) = ?x + 10 ^ k * a ! k"
    and tb: "val (take (Suc k) b) = ?y + 10 ^ k * b ! k"
    using k by (simp_all add: val_take_Suc)
  have step: "lt_loop a b (int (Suc k) - 1) =
        (if a ! k \<noteq> b ! k then a ! k < b ! k else lt_loop a b (int k - 1))"
    using lt_loop_step [OF k31, of a b] by simp
  show ?case
  proof (cases "a ! k = b ! k")
    case True
    with Suc ta tb show ?thesis unfolding step by simp
  next
    case False
    show ?thesis
    proof (cases "a ! k < b ! k")
      case True
      from digit_cmp [OF bx "by" this] ta tb True False show ?thesis unfolding step by simp
    next
      case ge: False
      with False have "b ! k < a ! k" by simp
      from digit_cmp [OF "by" bx this] ta tb ge False show ?thesis unfolding step by simp
    qed
  qed
qed

lemma op_lt_val:
  assumes "canonical a" and "canonical b" and "short a" and "short b"
  shows "op_lt a b \<longleftrightarrow> val a < val b"
proof -
  have sz: "size_of a = length a" "size_of b = length b"
    using assms(3,4) by (simp_all add: short_size_of)
  have t: "to_int (int (length a) - 1) = int (length a) - 1"
    using assms(3) by (intro to_int_pred) (simp add: short_def)
  show ?thesis
  proof (cases "length a = length b")
    case True
    with lt_loop_val [OF canonical_digits [OF assms(1)] canonical_digits [OF assms(2)] True
        assms(3), of "length a"] t
    show ?thesis by (simp add: op_lt_def sz)
  next
    case False
    show ?thesis
    proof (cases "length a < length b")
      case True
      with canonical_length_less [OF assms(1,2) True] False show ?thesis
        by (simp add: op_lt_def sz)
    next
      case ge: False
      with False have "length b < length a" by simp
      from canonical_length_less [OF assms(2,1) this] False ge show ?thesis
        by (simp add: op_lt_def sz)
    qed
  qed
qed

lemma op_ge_val:
  "canonical a \<Longrightarrow> canonical b \<Longrightarrow> short a \<Longrightarrow> short b \<Longrightarrow> op_ge a b \<longleftrightarrow> val b \<le> val a"
  by (auto simp: op_ge_def op_lt_val)

lemma op_le_val:
  "canonical a \<Longrightarrow> canonical b \<Longrightarrow> short a \<Longrightarrow> short b \<Longrightarrow> op_le a b \<longleftrightarrow> val a \<le> val b"
  by (auto simp: op_le_def op_gt_def op_lt_val)

lemma op_eq_val: "canonical a \<Longrightarrow> canonical b \<Longrightarrow> op_eq a b \<longleftrightarrow> val a = val b"
  by (auto simp: op_eq_def dest: canonical_inj)

lemma canonical_length_le:
  assumes "canonical a" and "canonical b" and "val a \<le> val b"
  shows "length a \<le> length b"
proof (rule ccontr)
  assume "\<not> length a \<le> length b"
  then have "length b < length a" by simp
  from canonical_length_less [OF assms(2,1) this] assms(3) show False by simp
qed

lemma short_val_le:
  "canonical a \<Longrightarrow> canonical b \<Longrightarrow> val a \<le> val b \<Longrightarrow> short b \<Longrightarrow> short a"
  using canonical_length_le [of a b] by (simp add: short_def)

subsection \<open>Subtraction\<close>

lemma val_drop_digit:
  "val (drop i other) = (if i < length other then other ! i else 0) + 10 * val (drop (Suc i) other)"
  by (simp add: val_drop)

lemma list_all_update: "list_all P xs \<Longrightarrow> P v \<Longrightarrow> list_all P (xs[i := v])"
  by (auto simp: list_all_iff dest: set_update_subset_insert [THEN subsetD])

lemma list_all_nth: "list_all P xs \<Longrightarrow> i < length xs \<Longrightarrow> P (xs ! i)"
  by (simp add: list_all_length)

lemma sub_loop_stop:
  assumes "short digits"
  shows "sub_loop other (int (length digits)) borrow digits = digits"
proof -
  have "to_size_t (int (length digits)) = length digits"
    using assms by (intro to_size_t_nat) (simp add: short_def)
  then show ?thesis
    using assms by (subst sub_loop.simps) (simp add: short_size_of)
qed

lemma sub_loop_step:
  assumes "short digits" and "short other" and "i < length digits"
    and "diff = digits ! i - borrow - (if i < length other then other ! i else 0)"
  shows "sub_loop other (int i) borrow digits =
         (if diff < 0 then sub_loop other (int (i + 1)) 1 (digits[i := to_char (diff + 10)])
          else sub_loop other (int (i + 1)) 0 (digits[i := to_char diff]))"
proof -
  have i: "i < 2147483647" using assms(1,3) by (simp add: short_def)
  then have "to_size_t (int i) = i" by (intro to_size_t_nat) simp
  moreover have "to_int (int i + 1) = int (i + 1)" using i by (rule to_int_succ)
  ultimately show ?thesis
    using assms by (subst sub_loop.simps) (simp add: Let_def short_size_of)
qed

lemma sub_loop_correct:
  assumes "list_all digit other" and "short other"
  shows "list_all digit digits \<Longrightarrow> short digits \<Longrightarrow> borrow = 0 \<or> borrow = 1 \<Longrightarrow>
         i \<le> length digits \<Longrightarrow>
         list_all digit (sub_loop other (int i) borrow digits) \<and>
         length (sub_loop other (int i) borrow digits) = length digits \<and>
         (\<exists>k. val (sub_loop other (int i) borrow digits) =
               val digits - 10 ^ i * (borrow + val (drop i other)) + 10 ^ length digits * k)"
proof (induction "length digits - i" arbitrary: i borrow digits)
  case 0
  then have i: "i = length digits" by simp
  have "val digits = val digits - 10 ^ length digits * (borrow + val (drop (length digits) other))
          + 10 ^ length digits * (borrow + val (drop (length digits) other))"
    by simp
  then show ?case using 0 i by (auto simp: sub_loop_stop)
next
  case (Suc n)
  then have i: "i < length digits" by simp
  define od where "od = (if i < length other then other ! i else 0)"
  define diff where "diff = digits ! i - borrow - od"
  define d' where "d' = (if diff < 0 then diff + 10 else diff)"
  define b' :: int where "b' = (if diff < 0 then 1 else 0)"
  have dod: "digit od" using assms(1) by (simp add: od_def list_all_nth) (simp add: digit_def)
  have ddi: "digit (digits ! i)" using Suc.prems(1) i by (rule list_all_nth)
  have dd': "digit d'" using dod ddi Suc.prems(3) by (auto simp: d'_def diff_def digit_def)
  have diff_eq: "diff = digits ! i - borrow - (if i < length other then other ! i else 0)"
    by (simp add: diff_def od_def)
  have step: "sub_loop other (int i) borrow digits =
        sub_loop other (int (i + 1)) b' (digits[i := d'])"
  proof (cases "diff < 0")
    case True
    then have "d' = diff + 10" "b' = 1" by (simp_all add: d'_def b'_def)
    with sub_loop_step [OF Suc.prems(2) assms(2) i diff_eq] to_char_digit [OF dd'] True
    show ?thesis by simp
  next
    case False
    then have "d' = diff" "b' = 0" by (simp_all add: d'_def b'_def)
    with sub_loop_step [OF Suc.prems(2) assms(2) i diff_eq] to_char_digit [OF dd'] False
    show ?thesis by simp
  qed
  have sh': "short (digits[i := d'])" using Suc.prems(2) by (simp add: short_def)
  have IH: "list_all digit (sub_loop other (int (i + 1)) b' (digits[i := d'])) \<and>
        length (sub_loop other (int (i + 1)) b' (digits[i := d'])) = length (digits[i := d']) \<and>
        (\<exists>k. val (sub_loop other (int (i + 1)) b' (digits[i := d'])) =
              val (digits[i := d']) - 10 ^ (i + 1) * (b' + val (drop (i + 1) other))
              + 10 ^ length (digits[i := d']) * k)"
    using Suc.hyps(2) i Suc.prems(1) dd' sh'
    by (intro Suc.hyps(1)) (simp_all add: list_all_update b'_def)
  then obtain k where k: "val (sub_loop other (int (i + 1)) b' (digits[i := d'])) =
        val (digits[i := d']) - 10 ^ (i + 1) * (b' + val (drop (i + 1) other))
        + 10 ^ length digits * k"
    by auto
  have "d' - 10 * b' = diff" by (simp add: d'_def b'_def)
  then have d': "d' = digits ! i - borrow - od + 10 * b'" by (simp add: diff_def)
  have "val (digits[i := d']) - 10 ^ (i + 1) * (b' + val (drop (i + 1) other)) =
        val digits - 10 ^ i * (borrow + (od + 10 * val (drop (Suc i) other)))"
    using i by (simp add: val_update d' algebra_simps)
  also have "od + 10 * val (drop (Suc i) other) = val (drop i other)"
    unfolding od_def by (rule val_drop_digit [symmetric])
  finally have "val (sub_loop other (int i) borrow digits) =
        val digits - 10 ^ i * (borrow + val (drop i other)) + 10 ^ length digits * k"
    using k by (simp add: step)
  with IH show ?case unfolding step by auto
qed

lemma power_multiple_zero:
  fixes p k x :: int
  assumes "x = p * k" and "- p < x" and "x < p"
  shows "k = 0"
proof -
  from assms have p: "0 < p" by linarith
  from assms have "p * k < p * 1" "p * (- 1) < p * k" by simp_all
  with p have "k < 1" "- 1 < k" by (simp_all only: mult_less_cancel_left_pos)
  then show ?thesis by simp
qed

lemma op_sub_assign_correct:
  assumes "canonical a" and "canonical b" and "val b \<le> val a" and "short a"
  shows "\<exists>r. op_sub_assign a b = (None, r) \<and> canonical r \<and> val r = val a - val b"
proof -
  let ?r = "sub_loop b 0 0 a"
  have sb: "short b" using assms(2,1,3,4) by (rule short_val_le)
  from assms sb have nlt: "\<not> op_lt a b" by (simp add: op_lt_val)
  have da: "list_all digit a" and db: "list_all digit b"
    using assms by (simp_all add: canonical_def)
  from sub_loop_correct [OF db sb da assms(4), of 0 0]
  obtain k where dr: "list_all digit ?r" and lr: "length ?r = length a"
    and k: "val ?r = val a - val b + 10 ^ length a * k"
    by auto
  have "val ?r - (val a - val b) = 10 ^ length a * k" using k by simp
  moreover have "- (10 ^ length a) < val ?r - (val a - val b)"
    using val_nonneg [OF dr] val_upper [OF da] val_nonneg [OF db] assms(3) by linarith
  moreover have "val ?r - (val a - val b) < 10 ^ length a"
    using val_upper [OF dr] lr assms(3) by simp
  ultimately have "k = 0" by (rule power_multiple_zero)
  with k have v: "val ?r = val a - val b" by simp
  have "?r \<noteq> []" using lr assms(1) by (auto simp: canonical_def)
  from canonical_remove_leading_zeros [OF this dr] v nlt show ?thesis
    by (simp add: op_sub_assign_def val_remove_leading_zeros)
qed

lemma op_sub_assign_underflow:
  "op_lt a b \<Longrightarrow> op_sub_assign a b = (Some (underflow_error ''Result would be negative''), a)"
  by (simp add: op_sub_assign_def)

lemma op_sub_correct:
  assumes "canonical a" and "canonical b" and "val b \<le> val a" and "short a"
  shows "\<exists>r. op_sub a b = Inr r \<and> canonical r \<and> val r = val a - val b"
  using op_sub_assign_correct [OF assms] by (auto simp: op_sub_def)

subsection \<open>Multiplication\<close>

lemma mul_inner_stop:
  assumes "short other"
  shows "mul_inner digits other i (int (length other)) result = result"
proof -
  have "to_size_t (int (length other)) = length other"
    using assms by (intro to_size_t_nat) (simp add: short_def)
  then show ?thesis
    using assms by (subst mul_inner.simps) (simp add: short_size_of)
qed

lemma mul_inner_step:
  assumes "short other" and "j < length other" and "i + j + 1 < length result"
    and "i + j + 1 \<le> 2147483647"
    and "t = result ! (i + j) + digits ! i * other ! j"
  shows "mul_inner digits other (int i) (int j) result =
         mul_inner digits other (int i) (int (j + 1))
           (result[i + j := cmod t 10, i + j + 1 := result ! (i + j + 1) + cdiv t 10])"
proof -
  have "to_size_t (int j) = j" "to_size_t (int i) = i"
    using assms(4) by (simp_all add: to_size_t_nat)
  moreover have "to_int (int i + int j) = int (i + j)"
    using assms(4) to_int_nat [of "i + j"] by simp
  moreover have "to_int (int (i + j) + 1) = int (i + j + 1)"
    using assms(4) by (intro to_int_succ) simp
  moreover have "to_size_t (int (i + j)) = i + j"
    using assms(4) by (intro to_size_t_nat) simp
  moreover have "to_size_t (int (i + j + 1)) = i + j + 1"
    using assms(4) by (intro to_size_t_nat) simp
  moreover have "to_int (int j + 1) = int (j + 1)"
    using assms(4) by (intro to_int_succ) simp
  ultimately show ?thesis
    using assms(1,2,3,5)
    by (subst mul_inner.simps) (simp add: Let_def list_update_swap short_size_of)
qed

lemma mul_inner_val:
  assumes sh: "short other" and rng: "i + length other \<le> 2147483647"
  shows "j \<le> length other \<Longrightarrow> i + length other < length result \<Longrightarrow>
   length (mul_inner digits other (int i) (int j) result) = length result \<and>
   val (mul_inner digits other (int i) (int j) result) =
     val result + 10 ^ (i + j) * (digits ! i * val (drop j other))"
proof (induction "length other - j" arbitrary: j result)
  case 0
  then have "j = length other" by simp
  then show ?case by (simp add: mul_inner_stop [OF sh])
next
  case (Suc n)
  then have j: "j < length other" by simp
  define t where "t = result ! (i + j) + digits ! i * other ! j"
  define r' where
    "r' = result[i + j := cmod t 10, i + j + 1 := result ! (i + j + 1) + cdiv t 10]"
  have step: "mul_inner digits other (int i) (int j) result =
      mul_inner digits other (int i) (int (j + 1)) r'"
    unfolding r'_def using j Suc.prems(2) t_def rng by (intro mul_inner_step sh) simp_all
  have lr: "length r' = length result" by (simp add: r'_def)
  have "val r' = val result + (cmod t 10 - result ! (i + j)) * 10 ^ (i + j)
                 + cdiv t 10 * 10 ^ (i + j + 1)"
    using j Suc.prems(2) by (simp add: r'_def val_update)
  also have "\<dots> = val result + 10 ^ (i + j) * ((cmod t 10 + 10 * cdiv t 10) - result ! (i + j))"
    by (simp add: algebra_simps)
  also have "\<dots> = val result + 10 ^ (i + j) * (digits ! i * other ! j)"
    by (simp add: cmod_cdiv t_def)
  finally have vr: "val r' = val result + 10 ^ (i + j) * (digits ! i * other ! j)" .
  have IH: "length (mul_inner digits other (int i) (int (j + 1)) r') = length r' \<and>
        val (mul_inner digits other (int i) (int (j + 1)) r') =
        val r' + 10 ^ (i + (j + 1)) * (digits ! i * val (drop (j + 1) other))"
    using Suc.hyps(2) j Suc.prems(2) lr by (intro Suc.hyps(1)) simp_all
  have "val (drop j other) = other ! j + 10 * val (drop (Suc j) other)"
    using j by (rule val_drop)
  with IH vr lr show ?case unfolding step by (simp add: algebra_simps)
qed

lemma mul_outer_stop:
  assumes "short digits"
  shows "mul_outer digits other (int (length digits)) result = result"
proof -
  have "to_size_t (int (length digits)) = length digits"
    using assms by (intro to_size_t_nat) (simp add: short_def)
  then show ?thesis
    using assms by (subst mul_outer.simps) (simp add: short_size_of)
qed

lemma mul_outer_step:
  assumes "short digits" and "i < length digits"
  shows "mul_outer digits other (int i) result =
         mul_outer digits other (int (i + 1)) (mul_inner digits other (int i) (int 0) result)"
proof -
  have i: "i < 2147483647" using assms by (simp add: short_def)
  then have "to_size_t (int i) = i" by (intro to_size_t_nat) simp
  moreover have "to_int (int i + 1) = int (i + 1)" using i by (rule to_int_succ)
  ultimately show ?thesis
    using assms by (subst mul_outer.simps) (simp add: short_size_of)
qed

lemma mul_outer_val:
  assumes sd: "short digits" and so: "short other"
    and rng: "length digits + length other \<le> 2147483648"
  shows "i \<le> length digits \<Longrightarrow> length digits + length other \<le> length result \<Longrightarrow>
   length (mul_outer digits other (int i) result) = length result \<and>
   val (mul_outer digits other (int i) result) =
     val result + 10 ^ i * (val (drop i digits) * val other)"
proof (induction "length digits - i" arbitrary: i result)
  case 0
  then have "i = length digits" by simp
  then show ?case by (simp add: mul_outer_stop [OF sd])
next
  case (Suc n)
  then have i: "i < length digits" by simp
  with rng have ri: "i + length other \<le> 2147483647" by simp
  let ?r = "mul_inner digits other (int i) (int 0) result"
  have inner: "length ?r = length result"
    "val ?r = val result + 10 ^ i * (digits ! i * val other)"
    using mul_inner_val [OF so ri, of 0 result digits] i Suc.prems(2) by simp_all
  have IH: "length (mul_outer digits other (int (i + 1)) ?r) = length ?r \<and>
        val (mul_outer digits other (int (i + 1)) ?r) =
        val ?r + 10 ^ (i + 1) * (val (drop (i + 1) digits) * val other)"
    using Suc.hyps(2) i Suc.prems(2) inner(1) by (intro Suc.hyps(1)) simp_all
  have "val (drop i digits) = digits ! i + 10 * val (drop (Suc i) digits)"
    using i by (rule val_drop)
  with IH inner show ?case unfolding mul_outer_step [OF sd i] by (simp add: algebra_simps)
qed

lemma row_inv_step:
  assumes inv: "row_inv m i j r" and j: "j < m" and len: "i + m < length r"
    and t: "t = r ! (i + j) + x * y" and x: "digit x" and y: "digit y"
  shows "row_inv m i (j + 1) (r[i + j := t mod 10, i + j + 1 := r ! (i + j + 1) + t div 10])"
    and "0 \<le> t"
proof -
  have xy: "0 \<le> x * y" "x * y \<le> 81"
    using x y mult_mono [of x 9 y 9] by (simp_all add: digit_def)
  from inv have bnd: "0 \<le> r ! k \<and> r ! k \<le> (if k = i + j \<and> j < m then 18 else 9)"
    if "k < length r" for k
    using that by (simp add: row_inv_def)
  from inv have zero: "r ! k = 0" if "k < length r" "i + m \<le> k" "i + j < k" for k
    using that by (simp add: row_inv_def)
  have rij: "0 \<le> r ! (i + j)" "r ! (i + j) \<le> 18"
    using bnd [of "i + j"] j len by simp_all
  from xy rij show tpos: "0 \<le> t" by (simp add: t)
  from xy rij have "t \<le> 99" by (simp add: t)
  with tpos have q: "0 \<le> t div 10" "t div 10 \<le> 9" by presburger+
  have md: "0 \<le> t mod 10" "t mod 10 \<le> 9" by presburger+
  have next_le: "r ! (i + j + 1) \<le> 9" "0 \<le> r ! (i + j + 1)"
    using bnd [of "i + j + 1"] j len by simp_all
  have next_zero: "j + 1 = m \<Longrightarrow> r ! (i + j + 1) = 0"
    using zero [of "i + j + 1"] j len by simp
  let ?r = "r[i + j := t mod 10, i + j + 1 := r ! (i + j + 1) + t div 10]"
  have "0 \<le> ?r ! k \<and> ?r ! k \<le> (if k = i + (j + 1) \<and> j + 1 < m then 18 else 9)"
    if k: "k < length ?r" for k
  proof -
    consider "k = i + j" | "k = i + j + 1" | "k \<noteq> i + j" "k \<noteq> i + j + 1" by blast
    then show ?thesis
    proof cases
      case 1
      with md len j show ?thesis by simp
    next
      case 2
      show ?thesis
      proof (cases "j + 1 < m")
        case True
        with 2 q next_le len j show ?thesis by simp
      next
        case False
        with j have "j + 1 = m" by simp
        from next_zero [OF this] 2 q len j False show ?thesis by simp
      qed
    next
      case 3
      with bnd [of k] k show ?thesis by simp
    qed
  qed
  moreover have "?r ! k = 0" if "k < length ?r" "i + m \<le> k" "i + (j + 1) < k" for k
    using zero [of k] that by simp
  ultimately show "row_inv m i (j + 1) ?r"
    unfolding row_inv_def by blast
qed

lemma mul_inner_inv:
  assumes "list_all digit other" and "digit (digits ! i)"
    and sh: "short other" and rng: "i + length other \<le> 2147483647"
  shows "row_inv (length other) i j result \<Longrightarrow> j \<le> length other \<Longrightarrow>
         i + length other < length result \<Longrightarrow>
         row_inv (length other) i (length other)
           (mul_inner digits other (int i) (int j) result)"
proof (induction "length other - j" arbitrary: j result)
  case 0
  then have "j = length other" by simp
  with 0 show ?case by (simp add: mul_inner_stop [OF sh])
next
  case (Suc n)
  then have j: "j < length other" by simp
  define t where "t = result ! (i + j) + digits ! i * other ! j"
  let ?r = "result[i + j := t mod 10, i + j + 1 := result ! (i + j + 1) + t div 10]"
  have dy: "digit (other ! j)" using assms(1) j by (rule list_all_nth)
  note st = row_inv_step [OF Suc.prems(1) j Suc.prems(3) t_def assms(2) dy]
  have "i + j + 1 \<le> 2147483647" using j rng by simp
  from mul_inner_step [OF sh j _ this t_def]
  have step: "mul_inner digits other (int i) (int j) result =
      mul_inner digits other (int i) (int (j + 1)) ?r"
    using Suc.prems(3) j st(2) by (simp add: cdiv_nonneg cmod_nonneg)
  have "row_inv (length other) i (length other)
      (mul_inner digits other (int i) (int (j + 1)) ?r)"
    using Suc.hyps(2) j Suc.prems(3) st(1) by (intro Suc.hyps(1)) simp_all
  then show ?case by (simp only: step)
qed

lemma mul_outer_digits:
  assumes "list_all digit other" and "list_all digit digits"
    and sd: "short digits" and so: "short other"
    and rng: "length digits + length other \<le> 2147483648"
  shows "list_all digit result \<Longrightarrow> \<forall>k<length result. i + length other \<le> k \<longrightarrow> result ! k = 0 \<Longrightarrow>
         i \<le> length digits \<Longrightarrow> length digits + length other \<le> length result \<Longrightarrow>
         list_all digit (mul_outer digits other (int i) result)"
proof (induction "length digits - i" arbitrary: i result)
  case 0
  then have "i = length digits" by simp
  with 0 show ?case by (simp add: mul_outer_stop [OF sd])
next
  case (Suc n)
  then have i: "i < length digits" by simp
  with rng have ri: "i + length other \<le> 2147483647" by simp
  let ?m = "length other"
  let ?r = "mul_inner digits other (int i) (int 0) result"
  have len: "i + ?m < length result" using i Suc.prems(4) by simp
  have "row_inv ?m i 0 result"
    using Suc.prems(1,2) by (auto simp: row_inv_def list_all_length digit_def)
  from mul_inner_inv [OF assms(1) list_all_nth [OF assms(2) i] so ri this _ len]
  have inv: "row_inv ?m i ?m ?r" by simp
  have lr: "length ?r = length result"
    using mul_inner_val [OF so ri, of 0 result digits] len by simp
  have "list_all digit ?r"
    using inv by (simp add: row_inv_def list_all_length digit_def)
  moreover have "\<forall>k<length ?r. (i + 1) + ?m \<le> k \<longrightarrow> ?r ! k = 0"
    using inv by (simp add: row_inv_def)
  ultimately have "list_all digit (mul_outer digits other (int (i + 1)) ?r)"
    using Suc.hyps(2) i Suc.prems(4) lr by (intro Suc.hyps(1)) simp_all
  then show ?case by (simp only: mul_outer_step [OF sd i])
qed

lemma map_to_char_digits: "list_all digit xs \<Longrightarrow> map to_char xs = xs"
  by (induction xs) (simp_all add: to_char_digit)

lemma op_mul_assign_correct:
  assumes "canonical a" and "canonical b" and rng: "length a + length b \<le> 2147483648"
  shows "canonical (op_mul_assign a b) \<and> val (op_mul_assign a b) = val a * val b"
proof (cases "is_zero a \<or> is_zero b")
  case True
  then have "val a * val b = 0"
    using assms by (auto simp: is_zero_val)
  with True show ?thesis
    by (simp add: op_mul_assign_def BigInt_ull_small canonical_single digit_def)
next
  case False
  let ?z = "replicate (length a + length b) 0"
  let ?r = "mul_outer a b 0 ?z"
  have da: "list_all digit a" and db: "list_all digit b"
    using assms by (simp_all add: canonical_def)
  have "a \<noteq> []" "b \<noteq> []" using assms by (simp_all add: canonical_def)
  then have "0 < length a" "0 < length b" by simp_all
  with rng have sa: "short a" and sb: "short b" unfolding short_def by linarith+
  have sz: "(size_of a + size_of b) mod 18446744073709551616 = length a + length b"
    using rng by (simp add: short_size_of [OF sa] short_size_of [OF sb])
  have "length ?r = length ?z \<and> val ?r = val ?z + 10 ^ 0 * (val (drop 0 a) * val b)"
    using mul_outer_val [OF sa sb rng, of 0 ?z] by simp
  then have lr: "length ?r = length a + length b" and vr: "val ?r = val a * val b"
    by (simp_all add: val_replicate_zero)
  have dr: "list_all digit ?r"
    using mul_outer_digits [OF db da sa sb rng, of ?z 0]
    by (simp add: list_all_length digit_def)
  have ne: "?r \<noteq> []" using lr assms(1) by (auto simp: canonical_def)
  have "op_mul_assign a b = remove_leading_zeros (map to_char ?r)"
    using False by (simp add: op_mul_assign_def sz)
  with canonical_remove_leading_zeros [OF ne dr] vr show ?thesis
    by (simp add: map_to_char_digits [OF dr] val_remove_leading_zeros)
qed

lemma op_mul_assign_zero:
  assumes "canonical a" and "canonical b" and "val a = 0 \<or> val b = 0"
  shows "op_mul_assign a b = [0]"
  using assms by (auto simp: op_mul_assign_def is_zero_val BigInt_ull_small)

lemma op_mul_canonical:
  "canonical a \<Longrightarrow> canonical b \<Longrightarrow> length a + length b \<le> 2147483648 \<Longrightarrow>
   canonical (op_mul a b)"
  by (simp add: op_mul_def op_mul_assign_correct)

lemma op_mul_val:
  "canonical a \<Longrightarrow> canonical b \<Longrightarrow> length a + length b \<le> 2147483648 \<Longrightarrow>
   val (op_mul a b) = val a * val b"
  by (simp add: op_mul_def op_mul_assign_correct)

subsection \<open>Lengths of canonical digit strings\<close>

lemma canonical_val_lower_pos:
  assumes "canonical xs" and "0 < val xs"
  shows "10 ^ (length xs - 1) \<le> val xs"
proof (cases "1 < length xs")
  case True
  with assms(1) show ?thesis by (rule canonical_val_lower)
next
  case False
  with canonical_nonempty [OF assms(1)] have "length xs = 1" by (cases xs) simp_all
  with assms(2) show ?thesis by simp
qed

lemma length_product:
  assumes "canonical x" and "canonical y" and "canonical p"
    and "0 < val x" and "0 < val y" and "val x * val y \<le> val p"
  shows "length x + length y \<le> length p + 1"
proof -
  have lx: "1 \<le> length x" and ly: "1 \<le> length y"
    using canonical_nonempty [OF assms(1)] canonical_nonempty [OF assms(2)]
    by (simp_all add: Suc_le_eq)
  have "(10::int) ^ (length x - 1 + (length y - 1)) = 10 ^ (length x - 1) * 10 ^ (length y - 1)"
    by (rule power_add)
  also have "\<dots> \<le> val x * val y"
    using canonical_val_lower_pos [OF assms(1,4)] canonical_val_lower_pos [OF assms(2,5)]
      assms(4)
    by (intro mult_mono) simp_all
  also have "\<dots> < 10 ^ length p"
    using assms(6) canonical_val_upper [OF assms(3)] by simp
  finally have "length x - 1 + (length y - 1) < length p"
    by (simp only: power_strict_increasing_iff [of "10::int"])
  with lx ly show ?thesis by simp
qed

lemma val_drop_le:
  assumes "list_all digit xs"
  shows "val (drop i xs) \<le> val xs"
proof -
  have dt: "list_all digit (take i xs)" using assms by (rule list_all_take)
  have dd: "list_all digit (drop i xs)"
    using assms by (auto simp: list_all_iff dest: in_set_dropD)
  have "val xs = val (take i xs) + 10 ^ length (take i xs) * val (drop i xs)"
    using val_append [of "take i xs" "drop i xs"] by simp
  moreover have "1 * val (drop i xs) \<le> 10 ^ length (take i xs) * val (drop i xs)"
    using val_nonneg [OF dd] by (intro mult_right_mono) simp_all
  ultimately show ?thesis using val_nonneg [OF dt] by linarith
qed

subsection \<open>Division\<close>

lemma div_sub_self:
  fixes b x :: int
  assumes "0 < b"
  shows "(x - b) div b = x div b - 1" and "(x - b) mod b = x mod b"
proof -
  have "x div b = ((x - b) + b) div b" by simp
  also have "\<dots> = (x - b) div b + 1"
    using assms by (simp only: div_add_self2)
  finally show "(x - b) div b = x div b - 1" by simp
  show "(x - b) mod b = x mod b" by simp
qed

lemma div_shift_digit:
  fixes b d h :: int
  assumes "0 < b"
  shows "(d + 10 * h) div b = (d + 10 * (h mod b)) div b + 10 * (h div b)"
    and "(d + 10 * h) mod b = (d + 10 * (h mod b)) mod b"
proof -
  have "10 * (b * u + v) = 10 * v + b * (10 * u)" for u v :: int
    by (simp add: algebra_simps)
  then have "10 * (b * (h div b) + h mod b) = 10 * (h mod b) + b * (10 * (h div b))" .
  then have "10 * h = 10 * (h mod b) + b * (10 * (h div b))"
    by (simp only: mult_div_mod_eq)
  then have e: "d + 10 * h = (d + 10 * (h mod b)) + b * (10 * (h div b))"
    by (simp only: add.assoc)
  have "((d + 10 * (h mod b)) + b * (10 * (h div b))) div b =
        10 * (h div b) + (d + 10 * (h mod b)) div b"
    using assms by (intro div_mult_self2) simp
  then show "(d + 10 * h) div b = (d + 10 * (h mod b)) div b + 10 * (h div b)"
    by (simp only: e add.commute)
  show "(d + 10 * h) mod b = (d + 10 * (h mod b)) mod b"
    by (metis mod_add_right_eq mod_mult_right_eq)
qed

lemma quotient_digit:
  fixes b x :: int
  assumes "0 < b" and "0 \<le> x" and "x < b * 10"
  shows "0 \<le> x div b \<and> x div b \<le> 9"
proof -
  have "0 \<le> x div b" using assms by (simp add: pos_imp_zdiv_nonneg_iff)
  moreover have "x div b \<le> 9"
  proof (rule ccontr)
    assume "\<not> x div b \<le> 9"
    then have "10 \<le> x div b" by simp
    with assms(1) have "b * 10 \<le> b * (x div b)" by (intro mult_left_mono) simp_all
    moreover have "x = b * (x div b) + x mod b" by simp
    moreover have "0 \<le> x mod b" using assms(1) by simp
    ultimately show False using assms(3) by linarith
  qed
  ultimately show ?thesis ..
qed

lemma div_while_correct:
  assumes b: "canonical b" "0 < val b" and sb: "short b"
  shows "canonical cur \<Longrightarrow> short cur \<Longrightarrow> 0 \<le> count \<Longrightarrow>
         count + val cur div val b < 2147483648 \<Longrightarrow>
         \<exists>r. div_while cur b count = Some (Inr (r, count + val cur div val b)) \<and>
             canonical r \<and> val r = val cur mod val b"
proof (induction "nat (val cur)" arbitrary: cur count rule: less_induct)
  case less
  have nn: "0 \<le> val cur" using less.prems(1) by (rule canonical_val_nonneg)
  show ?case
  proof (cases "val b \<le> val cur")
    case True
    then have ge: "op_ge cur b" using less.prems(1,2) b(1) sb by (simp add: op_ge_val)
    from op_sub_assign_correct [OF less.prems(1) b(1) True less.prems(2)]
    obtain c where c: "op_sub_assign cur b = (None, c)" "canonical c" "val c = val cur - val b"
      by auto
    have sc: "short c"
      using c(2) less.prems(1) _ less.prems(2) by (rule short_val_le) (use c(3) b(2) in simp)
    have q: "val c div val b = val cur div val b - 1" and m: "val c mod val b = val cur mod val b"
      using div_sub_self [OF b(2), of "val cur"] c(3) by simp_all
    have "1 \<le> val cur div val b"
      using True b(2) by (simp add: pos_imp_zdiv_pos_iff Suc_le_eq int_one_le_iff_zero_less)
    with less.prems(3,4) have cnt: "to_int (count + 1) = count + 1"
      by (intro to_int_id) simp_all
    have "nat (val c) < nat (val cur)" using c(3) b(2) True by simp
    from less.hyps [OF this c(2) sc, of "count + 1"] less.prems(3,4) q m
    obtain r where "div_while c b (count + 1) = Some (Inr (r, count + val cur div val b))"
      "canonical r" "val r = val cur mod val b"
      by auto
    with ge c(1) cnt show ?thesis
      by (subst div_while.simps) simp
  next
    case False
    then have "\<not> op_ge cur b" using less.prems(1,2) b(1) sb by (simp add: op_ge_val)
    moreover from False nn have "val cur div val b = 0" "val cur mod val b = val cur"
      by simp_all
    ultimately show ?thesis using less.prems(1)
      by (subst div_while.simps) simp
  qed
qed

lemma list_all_rev: "list_all P (rev xs) = list_all P xs"
  by (simp add: list_all_iff)

lemma div_for_stop: "div_for digits divisor (- 1) q cd = Some (Inr q)"
  by (subst div_for.simps) simp

lemma div_for_step:
  assumes "k \<le> 2147483647"
  shows "div_for digits divisor (int k) q cd =
         (case div_while (remove_leading_zeros (digits ! k # cd)) divisor 0 of
            None \<Rightarrow> None
          | Some (Inl e) \<Rightarrow> Some (Inl e)
          | Some (Inr (cd', count)) \<Rightarrow>
              div_for digits divisor (int k - 1) (q @ [to_char count]) cd')"
proof -
  have "to_size_t (int k) = k" using assms by (intro to_size_t_nat) simp
  moreover have "to_int (int k - 1) = int k - 1" using assms by (intro to_int_pred) simp
  ultimately show ?thesis
    by (subst div_for.simps) (auto split: option.splits sum.splits)
qed

lemma div_for_correct:
  assumes b: "canonical b" "0 < val b" and sb: "short b"
    and a: "canonical digits" and sa: "short digits"
  shows "i \<le> length digits \<Longrightarrow> canonical cd \<Longrightarrow> val cd = val (drop i digits) mod val b \<Longrightarrow>
         list_all digit q \<Longrightarrow> q \<noteq> [] \<Longrightarrow> val (rev q) = val (drop i digits) div val b \<Longrightarrow>
         \<exists>q'. div_for digits b (int i - 1) q cd = Some (Inr q') \<and> list_all digit q' \<and>
              q' \<noteq> [] \<and> val (rev q') = val digits div val b"
proof (induction i arbitrary: q cd)
  case 0
  then show ?case by (simp add: div_for_stop)
next
  case (Suc i)
  then have i: "i < length digits" by simp
  with sa have i31: "i \<le> 2147483647" by (simp add: short_def)
  note d = canonical_digits [OF a]
  let ?d = "digits ! i"
  let ?h = "val (drop (Suc i) digits)"
  let ?cur = "remove_leading_zeros (?d # cd)"
  have dd: "digit ?d" using d i by (rule list_all_nth)
  have "list_all digit (?d # cd)" using dd Suc.prems(2) by (simp add: canonical_def)
  then have ccur: "canonical ?cur" by (intro canonical_remove_leading_zeros) simp_all
  have vcur: "val ?cur = ?d + 10 * (?h mod val b)"
    using Suc.prems(3) by (simp add: val_remove_leading_zeros)
  have hm: "0 \<le> ?h mod val b" "?h mod val b < val b" using b(2) by simp_all
  have cur_bounds: "0 \<le> val ?cur" "val ?cur < val b * 10"
    using hm dd by (simp_all add: vcur digit_def)
  from quotient_digit [OF b(2) cur_bounds]
  have qd: "0 \<le> val ?cur div val b" "val ?cur div val b \<le> 9" by simp_all
  have hi: "val (drop i digits) = ?d + 10 * ?h" using i by (rule val_drop)
  have "0 \<le> ?h"
    using d by (intro val_nonneg) (auto simp: list_all_iff dest: in_set_dropD)
  then have "?h mod val b \<le> ?h" using b(2) by (intro zmod_le_nonneg_dividend)
  then have "val ?cur \<le> val (drop i digits)" by (simp add: vcur hi)
  also have "\<dots> \<le> val digits" using d by (rule val_drop_le)
  finally have scur: "short ?cur" using ccur a sa by (intro short_val_le [of ?cur digits])
  from div_while_correct [OF b sb ccur scur, of 0] qd
  obtain r where r: "div_while ?cur b 0 = Some (Inr (r, val ?cur div val b))"
    "canonical r" "val r = val ?cur mod val b"
    by auto
  let ?c = "val ?cur div val b"
  have tc: "to_char ?c = ?c" using qd by (intro to_char_digit) (simp add: digit_def)
  note sh = div_shift_digit [OF b(2), of ?d ?h]
  have "val r = val (drop i digits) mod val b"
    using r(3) vcur hi sh(2) by simp
  moreover have "digit ?c" using qd by (simp add: digit_def)
  then have "list_all digit (q @ [?c])"
    using Suc.prems(4) by simp
  moreover have "val (rev (q @ [?c])) = val (drop i digits) div val b"
    using Suc.prems(6) vcur hi sh(1) by simp
  ultimately obtain q' where "div_for digits b (int i - 1) (q @ [?c]) r = Some (Inr q')"
    "list_all digit q'" "q' \<noteq> []" "val (rev q') = val digits div val b"
    using Suc.IH [of r "q @ [?c]"] i r(2) by auto
  with r(1) tc show ?case by (simp add: div_for_step [OF i31])
qed

lemma op_div_assign_correct:
  assumes "canonical a" and "canonical b" and "val b \<noteq> 0" and "short a" and "short b"
  shows "\<exists>q. op_div_assign a b = Some (Inr q) \<and> canonical q \<and> val q = val a div val b"
proof -
  have nz: "\<not> is_zero b" using assms by (simp add: is_zero_val)
  have pos: "0 < val b" using canonical_val_nonneg [OF assms(2)] assms(3) by simp
  have nn: "0 \<le> val a" using assms(1) by (rule canonical_val_nonneg)
  consider "val a < val b" | "val a = val b" | "val b < val a" by linarith
  then show ?thesis
  proof cases
    case 1
    then have "op_lt a b" using assms by (simp add: op_lt_val)
    moreover from 1 nn have "val a div val b = 0" by simp
    ultimately show ?thesis using nz
      by (simp add: op_div_assign_def canonical_BigInt_ull val_BigInt_ull)
  next
    case 2
    then have "\<not> op_lt a b" "op_eq a b" using assms by (simp_all add: op_lt_val op_eq_val)
    moreover from 2 pos have "val a div val b = 1" by simp
    ultimately show ?thesis using nz
      by (simp add: op_div_assign_def canonical_BigInt_ull val_BigInt_ull)
  next
    case 3
    then have cmp: "\<not> op_lt a b" "\<not> op_eq a b"
      using assms by (simp_all add: op_lt_val op_eq_val)
    have z: "BigInt_ull 0 = [0]" by (simp add: BigInt_ull_small)
    have t: "to_int (int (size_of a) - 1) = int (length a) - 1"
      using assms(4) to_int_pred [of "length a"] by (simp add: short_size_of short_def)
    have "\<exists>q'. div_for a b (int (length a) - 1) [0] [0] = Some (Inr q') \<and> list_all digit q' \<and>
               q' \<noteq> [] \<and> val (rev q') = val a div val b"
      using assms(1,2,4,5) pos
      by (intro div_for_correct) (simp_all add: canonical_def digit_def)
    then obtain q' where q': "div_for a b (int (length a) - 1) [0] [0] = Some (Inr q')"
      "list_all digit q'" "q' \<noteq> []" "val (rev q') = val a div val b"
      by auto
    have "canonical (remove_leading_zeros (rev q'))"
      using q'(2,3) by (intro canonical_remove_leading_zeros) (simp_all add: list_all_rev)
    with q'(1,4) nz cmp z t show ?thesis
      by (simp add: op_div_assign_def val_remove_leading_zeros)
  qed
qed

lemma op_div_correct:
  "canonical a \<Longrightarrow> canonical b \<Longrightarrow> val b \<noteq> 0 \<Longrightarrow> short a \<Longrightarrow> short b \<Longrightarrow>
   \<exists>q. op_div a b = Some (Inr q) \<and> canonical q \<and> val q = val a div val b"
  unfolding op_div_def by (rule op_div_assign_correct)

lemma op_mod_correct:
  assumes "canonical a" and "canonical b" and "val b \<noteq> 0" and "short a" and "short b"
  shows "\<exists>r. op_mod a b = Some (Inr r) \<and> canonical r \<and> val r = val a mod val b"
proof -
  have nz: "\<not> is_zero b" using assms by (simp add: is_zero_val)
  have pos: "0 < val b" using canonical_val_nonneg [OF assms(2)] assms(3) by simp
  from op_div_correct [OF assms]
  obtain q where q: "op_div a b = Some (Inr q)" "canonical q" "val q = val a div val b"
    by auto
  have "val a - val a div val b * val b = val a mod val b"
    by (simp add: minus_div_mult_eq_mod)
  moreover have "0 \<le> val a mod val b" using pos by simp
  ultimately have le: "val a div val b * val b \<le> val a" by linarith
  have rng: "length q + length b \<le> 2147483648"
  proof (cases "0 < val q")
    case True
    from length_product [OF q(2) assms(2,1) True pos] le q(3)
    have "length q + length b \<le> length a + 1" by simp
    with assms(4) show ?thesis by (simp add: short_def)
  next
    case False
    with canonical_val_nonneg [OF q(2)] have "val q = 0" by simp
    from canonical_zero [OF q(2) this] assms(5) show ?thesis by (simp add: short_def)
  qed
  have cm: "canonical (op_mul q b)" and vm: "val (op_mul q b) = val a div val b * val b"
    using q(2,3) assms(2) rng by (simp_all add: op_mul_canonical op_mul_val)
  from le have "val (op_mul q b) \<le> val a" by (simp add: vm)
  from op_sub_assign_correct [OF assms(1) cm this assms(4)]
  obtain r where r: "op_sub_assign a (op_mul q b) = (None, r)" "canonical r"
    "val r = val a - val a div val b * val b"
    by (auto simp: vm)
  have "val r = val a mod val b"
    using r(3) by (simp add: minus_div_mult_eq_mod)
  with q(1) r(1,2) nz show ?thesis by (simp add: op_mod_def)
qed

section \<open>Factorial and Catalan numbers\<close>

lemma length_BigInt_ull: "length (BigInt_ull n) = length (show_nat n)"
proof (induction n rule: less_induct)
  case (less n)
  show ?case
  proof (cases "0 < n div 10")
    case True
    then have "n div 10 < n" and "10 \<le> n" by simp_all
    with less [OF this(1)] True show ?thesis
      by (simp add: BigInt_ull_unfold [of n] show_nat_large)
  next
    case False
    then have "n < 10" by simp
    then show ?thesis by (simp add: BigInt_ull_small show_nat_small)
  qed
qed

lemma canonical_BigInt_ull_val: "canonical r \<Longrightarrow> BigInt_ull (nat (val r)) = r"
  by (rule canonical_inj) (simp_all add: canonical_BigInt_ull val_BigInt_ull canonical_val_nonneg)

lemma canonical_length_show_nat: "canonical r \<Longrightarrow> length r = length (show_nat (nat (val r)))"
  using length_BigInt_ull [of "nat (val r)"] by (simp add: canonical_BigInt_ull_val)

lemma prod_int_from:
  fixes i n :: int
  assumes "i \<le> n"
  shows "(\<Prod>k = i..n. k) = i * (\<Prod>k = i + 1..n. k)"
proof -
  have "{i..n} = insert i {i + 1..n}" using assms by auto
  moreover have "i \<notin> {i + 1..n}" by simp
  ultimately show ?thesis by simp
qed

lemma prod_int_pos:
  fixes i n :: int
  shows "0 < i \<Longrightarrow> 0 < (\<Prod>k = i..n. k)"
  by (rule prod_pos) simp

lemma prod_int_unfold:
  fixes i n :: int
  shows "(\<Prod>k = i..n. k) = (if i \<le> n then i * (\<Prod>k = i + 1..n. k) else 1)"
  using prod_int_from [of i n] by simp

lemma prod_int_fact: "(\<Prod>k = 1..int m. k) = int (fact m)"
proof (induction m)
  case 0
  then show ?case by simp
next
  case (Suc m)
  have "{1..int (Suc m)} = insert (int (Suc m)) {1..int m}" by auto
  moreover have "int (Suc m) \<notin> {1..int m}" by simp
  ultimately have "(\<Prod>k = 1..int (Suc m). k) = int (Suc m) * (\<Prod>k = 1..int m. k)"
    by (simp del: of_nat_Suc)
  with Suc show ?case by (simp add: algebra_simps)
qed

lemma fact_catalan_le: "fact (Suc n) * fact n \<le> (fact (2 * n) :: nat)"
proof (induction n)
  case 0
  then show ?case by simp
next
  case (Suc n)
  have "fact (Suc (Suc n)) * fact (Suc n) = (Suc (Suc n) * Suc n) * (fact (Suc n) * fact n)"
    by (simp add: algebra_simps)
  also have "\<dots> \<le> (Suc (Suc n) * Suc n) * fact (2 * n)"
    using Suc by (intro mult_left_mono) simp_all
  also have "\<dots> \<le> (Suc (Suc (2 * n)) * Suc (2 * n)) * fact (2 * n)"
    by (intro mult_right_mono mult_mono) simp_all
  also have "\<dots> = fact (2 * Suc n)" by (simp add: algebra_simps)
  finally show ?case .
qed

lemma factorial_for_correct:
  assumes n: "n < 2147483647" and F: "canonical F" "short F"
  shows "canonical result \<Longrightarrow> 0 < val result \<Longrightarrow> 2 \<le> i \<Longrightarrow> i \<le> n + 1 \<Longrightarrow>
         val result * (\<Prod>k = i..n. k) \<le> val F \<Longrightarrow>
         \<exists>r. factorial_for n i result = Some r \<and> canonical r \<and>
             val r = val result * (\<Prod>k = i..n. k)"
proof (induction "nat (n + 1 - i)" arbitrary: i result)
  case 0
  then have "\<not> i \<le> n" by simp
  then show ?case using 0 by (subst factorial_for.simps) simp
next
  case (Suc m)
  then have le: "i \<le> n" by simp
  have ti: "to_int (i + 1) = i + 1" using le n Suc.prems(3) by (intro to_int_id) simp_all
  have tu: "to_ull i = nat i" using le n Suc.prems(3) by (intro to_ull_id) simp_all
  let ?b = "BigInt_ull (nat i)"
  let ?r = "op_mul_assign result ?b"
  have cb: "canonical ?b" and vb: "val ?b = i"
    using Suc.prems(3) by (simp_all add: canonical_BigInt_ull val_BigInt_ull)
  have rest: "1 \<le> (\<Prod>k = i + 1..n. k)"
    using prod_int_pos [of "i + 1" n] Suc.prems(3) by simp
  have "val result * i * 1 \<le> val result * i * (\<Prod>k = i + 1..n. k)"
    using rest Suc.prems(2,3) by (intro mult_left_mono) simp_all
  also have "\<dots> = val result * (\<Prod>k = i..n. k)"
    by (simp add: prod_int_from [OF le])
  finally have bound: "val result * i \<le> val F" using Suc.prems(5) by simp
  have bound': "val result * val ?b \<le> val F" using bound by (simp add: vb)
  have pb: "0 < val ?b" using Suc.prems(3) by (simp add: vb)
  have "length result + length ?b \<le> length F + 1"
    by (rule length_product [OF Suc.prems(1) cb F(1) Suc.prems(2) pb bound'])
  with F(2) have rng: "length result + length ?b \<le> 2147483648" by (simp add: short_def)
  have cr: "canonical ?r" and vr: "val ?r = val result * i"
    using op_mul_assign_correct [OF Suc.prems(1) cb rng] by (simp_all add: vb)
  have pr: "0 < val ?r" using Suc.prems(2,3) by (simp add: vr)
  have "val ?r * (\<Prod>k = i + 1..n. k) \<le> val F"
    using Suc.prems(5) by (simp add: vr prod_int_from [OF le] algebra_simps)
  moreover have "m = nat (n + 1 - (i + 1))" using Suc.hyps(2) by simp
  ultimately obtain r where r: "factorial_for n (i + 1) ?r = Some r" "canonical r"
    "val r = val ?r * (\<Prod>k = i + 1..n. k)"
    using Suc.hyps(1) [of "i + 1" ?r] cr pr Suc.prems(3) le by auto
  have "factorial_for n i result = factorial_for n (i + 1) ?r"
    using le ti tu by (subst factorial_for.simps) simp
  with r vr prod_int_from [OF le] show ?case by simp
qed

lemma prod_int_from_one:
  fixes n :: int
  shows "(\<Prod>k = 2..n. k) = (\<Prod>k = 1..n. k)"
proof (cases "1 \<le> n")
  case True
  from prod_int_from [OF this] show ?thesis by simp
next
  case False
  then show ?thesis by simp
qed

text \<open>
  The digit string of a number whose decimal text has at most \<open>2 ^ 31 - 1\<close> characters.
\<close>

lemma short_digit_string:
  assumes "0 \<le> v" and "length (show_nat (nat v)) \<le> 2147483647"
  shows "canonical (BigInt_ull (nat v))" and "short (BigInt_ull (nat v))"
    and "val (BigInt_ull (nat v)) = v"
  using assms by (simp_all add: canonical_BigInt_ull short_def length_BigInt_ull val_BigInt_ull)

lemma factorial_correct:
  assumes "0 \<le> n" and "n < 2147483647"
    and "length (show_nat (nat (\<Prod>k = 1..n. k))) \<le> 2147483647"
  shows "\<exists>r. factorial n = Some (Inr r) \<and> canonical r \<and> val r = (\<Prod>k = 1..n. k)"
proof -
  let ?v = "\<Prod>k = 1..n. k"
  have "0 < ?v" by (rule prod_int_pos) simp
  then have "0 \<le> ?v" by simp
  note F = short_digit_string [OF this assms(3)]
  show ?thesis
  proof (cases "n = 0")
    case True
    have "factorial_for 0 2 (BigInt_ull 1) = Some (BigInt_ull 1)"
      by (subst factorial_for.simps) simp
    with True show ?thesis
      by (simp add: factorial_def canonical_BigInt_ull val_BigInt_ull del: One_nat_def)
  next
    case False
    with assms(1) have "2 \<le> n + 1" by simp
    moreover have "val (BigInt_ull 1) * (\<Prod>k = 2..n. k) \<le> val (BigInt_ull (nat ?v))"
      by (simp add: F(3) val_BigInt_ull prod_int_from_one del: One_nat_def)
    ultimately obtain r where "factorial_for n 2 (BigInt_ull 1) = Some r" "canonical r"
      "val r = (\<Prod>k = 2..n. k)"
      using factorial_for_correct [OF assms(2) F(1,2), of "BigInt_ull 1" 2]
      by (auto simp: val_BigInt_ull canonical_BigInt_ull simp del: One_nat_def)
    with assms(1) show ?thesis by (simp add: factorial_def prod_int_from_one)
  qed
qed

lemma factorial_negative:
  "n < 0 \<Longrightarrow> factorial n = Some (Inl (invalid_argument ''Negative factorial''))"
  by (simp add: factorial_def)

lemma show_nat_length_mono:
  assumes "a \<le> b"
  shows "length (show_nat a) \<le> length (show_nat b)"
proof -
  from assms have "val (BigInt_ull a) \<le> val (BigInt_ull b)"
    by (simp add: val_BigInt_ull)
  from canonical_length_le [OF canonical_BigInt_ull canonical_BigInt_ull this]
  show ?thesis by (simp add: length_BigInt_ull)
qed

lemma nat_prod_int_fact: "0 \<le> n \<Longrightarrow> nat (\<Prod>k = 1..n. k) = fact (nat n)"
  using prod_int_fact [of "nat n"] by (simp del: of_nat_fact)

lemma le_mult_pos:
  fixes a b c :: nat
  assumes "a * b \<le> c" and "0 < b"
  shows "a \<le> c"
  using assms by (cases b) simp_all

lemma catalan_correct:
  assumes n: "0 \<le> n" "n < 1073741824"
    and len: "length (show_nat (nat (\<Prod>k = 1..2 * n. k))) \<le> 2147483647"
  shows "\<exists>num f1 f0 q.
          factorial (2 * n) = Some (Inr num) \<and> factorial (n + 1) = Some (Inr f1) \<and>
          factorial n = Some (Inr f0) \<and>
          catalan n = op_div num (op_mul f1 f0) \<and>
          catalan n = Some (Inr q) \<and> canonical q \<and>
          val q = (\<Prod>k = 1..2 * n. k) div ((\<Prod>k = 1..n + 1. k) * (\<Prod>k = 1..n. k))"
proof -
  define m where "m = nat n"
  have nm: "n = int m" using n(1) by (simp add: m_def)
  have t2: "to_int (2 * n) = 2 * n" and t1: "to_int (n + 1) = n + 1"
    using n by (simp_all add: to_int_id)
  have p2: "nat (\<Prod>k = 1..2 * n. k) = fact (2 * m)"
    using nat_prod_int_fact [of "2 * n"] n(1) by (simp add: m_def nat_mult_distrib)
  have p1: "nat (\<Prod>k = 1..n + 1. k) = fact (Suc m)"
    using nat_prod_int_fact [of "n + 1"] n(1) by (simp add: m_def nat_add_distrib)
  have p0: "nat (\<Prod>k = 1..n. k) = fact m"
    using nat_prod_int_fact [of n] n(1) by (simp add: m_def)
  have den: "fact (Suc m) * fact m \<le> (fact (2 * m) :: nat)" by (rule fact_catalan_le)
  have le1: "fact (Suc m) \<le> (fact (2 * m) :: nat)"
    by (rule le_mult_pos [OF den]) simp
  have le0: "fact m \<le> (fact (2 * m) :: nat)" by (intro fact_mono) simp
  have len1: "length (show_nat (nat (\<Prod>k = 1..n + 1. k))) \<le> 2147483647"
    using show_nat_length_mono [OF le1] len by (simp only: p2 p1)
  have len0: "length (show_nat (nat (\<Prod>k = 1..n. k))) \<le> 2147483647"
    using show_nat_length_mono [OF le0] len by (simp only: p2 p0)
  from n factorial_correct [of "2 * n", OF _ _ len]
  obtain num where num: "factorial (2 * n) = Some (Inr num)" "canonical num"
    "val num = (\<Prod>k = 1..2 * n. k)"
    by auto
  from n factorial_correct [of "n + 1", OF _ _ len1]
  obtain f1 where f1: "factorial (n + 1) = Some (Inr f1)" "canonical f1"
    "val f1 = (\<Prod>k = 1..n + 1. k)"
    by auto
  from n factorial_correct [of n, OF _ _ len0]
  obtain f0 where f0: "factorial n = Some (Inr f0)" "canonical f0"
    "val f0 = (\<Prod>k = 1..n. k)"
    by auto
  have v2: "val num = int (fact (2 * m))" and v1: "val f1 = int (fact (Suc m))"
    and v0: "val f0 = int (fact m)"
    using prod_int_fact [of "2 * m"] prod_int_fact [of "Suc m"] prod_int_fact [of m]
    by (simp_all add: num(3) f1(3) f0(3) nm del: of_nat_fact of_nat_Suc)
      (simp_all add: algebra_simps)
  have snum: "short num"
    using canonical_length_show_nat [OF num(2)] len by (simp add: short_def num(3))
  have "int (fact (Suc m) * fact m) \<le> int (fact (2 * m))"
    using den by (rule of_nat_mono)
  then have prod_le: "val f1 * val f0 \<le> val num"
    by (simp add: v2 v1 v0 del: of_nat_fact of_nat_Suc fact_Suc)
  have pos1: "0 < val f1" and pos0: "0 < val f0"
    unfolding f1(3) f0(3) by (intro prod_int_pos; simp)+
  from length_product [OF f1(2) f0(2) num(2) pos1 pos0 prod_le] snum
  have rng: "length f1 + length f0 \<le> 2147483648" by (simp add: short_def)
  have cd: "canonical (op_mul f1 f0)" and vd: "val (op_mul f1 f0) = val f1 * val f0"
    using f1(2) f0(2) rng by (simp_all add: op_mul_canonical op_mul_val)
  have sd: "short (op_mul f1 f0)"
    using cd num(2) _ snum by (rule short_val_le) (simp add: vd prod_le)
  have "val (op_mul f1 f0) \<noteq> 0" using pos1 pos0 by (simp add: vd)
  from op_div_correct [OF num(2) cd this snum sd]
  obtain q where q: "op_div num (op_mul f1 f0) = Some (Inr q)" "canonical q"
    "val q = val num div (val f1 * val f0)"
    by (auto simp: vd)
  have "catalan n = op_div num (op_mul f1 f0)"
    using n num(1) f1(1) f0(1) by (simp add: catalan_def t2 t1)
  with num f1 f0 q show ?thesis by auto
qed

text \<open>
  C8, as amended. The positions of the digits are native \<open>int\<close>s, so the products are
  computed as claimed only while every digit string has at most \<open>2 ^ 31 - 1\<close> digits.
  \<open>factorial n\<close> returns the product of \<open>1..n\<close> for every native \<open>n\<close> with
  \<open>0 <= n < 2^31 - 1\<close> whose factorial has at most \<open>2 ^ 31 - 1\<close> decimal digits;
  \<open>catalan n\<close> returns \<open>factorial (2 * n)\<close> divided by \<open>factorial (n + 1) * factorial n\<close>
  for every \<open>n\<close> with \<open>0 <= n < 2^30\<close> (so that \<open>2 * n\<close> is a native \<open>int\<close>) such that the
  factorial of \<open>2 * n\<close> has at most \<open>2 ^ 31 - 1\<close> decimal digits; for \<open>n < 0\<close> both throw
  \<open>invalid_argument\<close>.
\<close>

theorem C8_factorial_catalan:
  "(0 \<le> n \<and> n < 2147483647 \<and>
    length (show_nat (nat (\<Prod>k = 1..n. k))) \<le> 2147483647 \<longrightarrow>
      (\<exists>r. factorial n = Some (Inr r) \<and> canonical r \<and> val r = (\<Prod>k = 1..n. k))) \<and>
   (0 \<le> n \<and> n < 1073741824 \<and>
    length (show_nat (nat (\<Prod>k = 1..2 * n. k))) \<le> 2147483647 \<longrightarrow>
      (\<exists>num f1 f0 q.
          factorial (2 * n) = Some (Inr num) \<and> factorial (n + 1) = Some (Inr f1) \<and>
          factorial n = Some (Inr f0) \<and>
          catalan n = op_div num (op_mul f1 f0) \<and>
          catalan n = Some (Inr q) \<and> canonical q \<and>
          val q = (\<Prod>k = 1..2 * n. k) div ((\<Prod>k = 1..n + 1. k) * (\<Prod>k = 1..n. k)))) \<and>
   (n < 0 \<longrightarrow>
      factorial n = Some (Inl (invalid_argument ''Negative factorial'')) \<and>
      catalan n = Some (Inl (invalid_argument ''Negative Catalan number'')))"
proof (intro conjI impI)
  assume "0 \<le> n \<and> n < 2147483647 \<and>
    length (show_nat (nat (\<Prod>k = 1..n. k))) \<le> 2147483647"
  then show "\<exists>r. factorial n = Some (Inr r) \<and> canonical r \<and> val r = (\<Prod>k = 1..n. k)"
    by (simp add: factorial_correct)
next
  assume "0 \<le> n \<and> n < 1073741824 \<and>
    length (show_nat (nat (\<Prod>k = 1..2 * n. k))) \<le> 2147483647"
  then show "\<exists>num f1 f0 q.
          factorial (2 * n) = Some (Inr num) \<and> factorial (n + 1) = Some (Inr f1) \<and>
          factorial n = Some (Inr f0) \<and>
          catalan n = op_div num (op_mul f1 f0) \<and>
          catalan n = Some (Inr q) \<and> canonical q \<and>
          val q = (\<Prod>k = 1..2 * n. k) div ((\<Prod>k = 1..n + 1. k) * (\<Prod>k = 1..n. k))"
    by (intro catalan_correct) simp_all
next
  assume "n < 0"
  then show "factorial n = Some (Inl (invalid_argument ''Negative factorial''))"
    by (rule factorial_negative)
next
  assume "n < 0"
  then show "catalan n = Some (Inl (invalid_argument ''Negative Catalan number''))"
    by (simp add: catalan_def)
qed

theorem C8_factorial_catalan_witness:
  "length (show_nat (nat (\<Prod>k = 1..(5::int). k))) = 3 \<and>
   factorial 5 = Some (Inr [0, 2, 1]) \<and> canonical [0, 2, 1] \<and>
   val [0, 2, 1] = (\<Prod>k = 1..5. k) \<and>
   length (show_nat (nat (\<Prod>k = 1..2 * (4::int). k))) = 5 \<and>
   catalan 4 = Some (Inr [4, 1]) \<and> canonical [4, 1] \<and>
   val [4, 1] = (\<Prod>k = 1..2 * 4. k) div ((\<Prod>k = 1..4 + 1. k) * (\<Prod>k = 1..4. k)) \<and>
   factorial (- 1) = Some (Inl (invalid_argument ''Negative factorial'')) \<and>
   catalan (- 1) = Some (Inl (invalid_argument ''Negative Catalan number''))"
proof -
  have l: "length (show_nat (nat (\<Prod>k = 1..(5::int). k))) = 3"
    "length (show_nat (nat (\<Prod>k = 1..2 * (4::int). k))) = 5"
    by (simp_all add: prod_int_unfold show_nat.simps)
  have e: "factorial 5 = Some (Inr [0, 2, 1])" "catalan 4 = Some (Inr [4, 1])"
    by (simp_all add: eval_simps catalan_def factorial_def factorial_for.simps to_ull_def
        cong: prod.case_cong_weak)
  from C8_factorial_catalan [of 5, THEN conjunct1] l(1) obtain r where
    "factorial 5 = Some (Inr r)" "canonical r" "val r = (\<Prod>k = 1..5. k)"
    by auto
  with e(1) have f: "canonical [0, 2, 1]" "val [0, 2, 1] = (\<Prod>k = 1..5. k)"
    by simp_all
  from C8_factorial_catalan [of 4, THEN conjunct2, THEN conjunct1] l(2) obtain q where
    "catalan 4 = Some (Inr q)" "canonical q"
    "val q = (\<Prod>k = 1..2 * 4. k) div ((\<Prod>k = 1..4 + 1. k) * (\<Prod>k = 1..4. k))"
    by auto
  with e(2) have g: "canonical [4, 1]"
    "val [4, 1] = (\<Prod>k = 1..2 * 4. k) div ((\<Prod>k = 1..4 + 1. k) * (\<Prod>k = 1..4. k))"
    by simp_all
  have "factorial (- 1) = Some (Inl (invalid_argument ''Negative factorial'')) \<and>
      catalan (- 1) = Some (Inl (invalid_argument ''Negative Catalan number''))"
    using C8_factorial_catalan [of "- 1", THEN conjunct2, THEN conjunct2] by simp
  with l e f g show ?thesis by blast
qed

text \<open>
  The claim as stated fails at the native argument \<open>n = 2^30\<close>: the product \<open>2 * n\<close> wraps
  to the smallest \<open>int\<close> and \<open>factorial\<close> throws, so \<open>catalan\<close> fails although \<open>n >= 0\<close>.
\<close>

theorem C8_overflow_counterexample:
  "(0::int) \<le> 1073741824 \<and> (1073741824::int) \<le> 2147483647 \<and>
   catalan 1073741824 = Some (Inl (invalid_argument ''Negative factorial''))"
  by (simp add: catalan_def to_int_def factorial_def)

section \<open>Addition\<close>

lemma add_loop_stop:
  "\<not> (i < max_len \<or> carry \<noteq> 0) \<Longrightarrow> add_loop other max_len i carry digits = Some digits"
  by (subst add_loop.simps) simp

lemma add_loop_step:
  assumes "int i < max_len \<or> carry \<noteq> 0" and "i \<le> length digits"
    and "i < 2147483647" and "short digits" and "short other"
    and "ds = (if i = length digits then digits @ [0] else digits)"
    and "sm = ds ! i + (if i < length other then other ! i else 0) + carry"
  shows "add_loop other max_len (int i) carry digits =
         add_loop other max_len (int (i + 1)) (cdiv sm 10) (ds[i := cmod sm 10])"
proof -
  have ts: "to_size_t (int i) = i" using assms(3) by (intro to_size_t_nat) simp
  have ti: "to_int (int i + 1) = int (i + 1)" using assms(3) by (rule to_int_succ)
  have sz: "size_of digits = length digits" "size_of other = length other"
    using assms(4,5) by (simp_all add: short_size_of)
  have "add_loop other max_len (int i) carry digits =
        (let digits = (if i = length digits then digits @ [0] else digits);
             other_digit = (if i < length other then other ! i else 0);
             sum = digits ! i + other_digit + carry
         in add_loop other max_len (int (i + 1)) (cdiv sum 10)
              (digits[i := to_char (cmod sum 10)]))"
    by (subst add_loop.simps) (simp only: ts ti sz assms(1) if_True)
  then show ?thesis
    by (simp only: assms(6,7) Let_def to_char_cmod)
qed

lemma add_loop_correct:
  assumes "list_all digit other" and "short other" and "length other \<le> m"
    and m: "m < 2147483647"
  shows "list_all digit digits \<Longrightarrow> carry = 0 \<or> carry = 1 \<Longrightarrow> i \<le> length digits \<Longrightarrow>
         length digits \<le> m \<Longrightarrow>
         \<exists>r. add_loop other (int m) (int i) carry digits = Some r \<and> list_all digit r \<and>
             val r = val digits + 10 ^ i * (carry + val (drop i other)) \<and>
             (length r = m \<or> length r = m + 1 \<and> last r = 1)"
proof (induction "m - i" arbitrary: i carry digits)
  case 0
  then have i: "i = m" "length digits = m" "length other \<le> i"
    using assms(3) by simp_all
  have sd: "short digits" using i(2) m by (simp add: short_def)
  show ?case
  proof (cases "carry = 0")
    case True
    with i 0 show ?thesis by (simp add: add_loop_stop)
  next
    case False
    with 0 have c: "carry = 1" by simp
    have "add_loop other (int m) (int i) carry digits =
          add_loop other (int m) (int (i + 1)) (cdiv 1 10) ((digits @ [0])[i := cmod 1 10])"
      using i c m sd assms(2) by (intro add_loop_step) (simp_all add: nth_append)
    also have "\<dots> = add_loop other (int m) (int (i + 1)) 0 (digits @ [1])"
      using i(1) i(2) [symmetric] by (simp add: cdiv_nonneg cmod_nonneg)
    also have "\<dots> = Some (digits @ [1])"
      using i by (intro add_loop_stop) simp
    finally show ?thesis
      using i c 0 by (simp add: val_append digit_def)
  qed
next
  case (Suc k)
  then have lt: "i < m" by simp
  have sd: "short digits" using Suc.prems(4) m by (simp add: short_def)
  define ds where "ds = (if i = length digits then digits @ [0] else digits)"
  define od where "od = (if i < length other then other ! i else 0)"
  define sm where "sm = ds ! i + od + carry"
  have i: "i < length ds" using Suc.prems(3) by (simp add: ds_def)
  have vds: "val ds = val digits" by (simp add: ds_def val_append)
  have dds: "list_all digit ds" using Suc.prems(1) by (simp add: ds_def digit_def)
  have dod: "digit od" using assms(1) by (simp add: od_def list_all_nth) (simp add: digit_def)
  have s: "0 \<le> sm" "sm \<le> 19"
    using list_all_nth [OF dds i] dod Suc.prems(2) by (auto simp: sm_def digit_def)
  have step: "add_loop other (int m) (int i) carry digits =
              add_loop other (int m) (int (i + 1)) (sm div 10) (ds[i := sm mod 10])"
    using lt Suc.prems(3) s m sd assms(2)
      add_loop_step [of i "int m" carry digits other ds sm]
    by (simp add: ds_def sm_def od_def cdiv_nonneg cmod_nonneg)
  have "list_all digit (ds[i := sm mod 10])"
    using dds by (intro list_all_update) (simp_all add: digit_def)
  moreover have "sm div 10 = 0 \<or> sm div 10 = 1" using s by presburger
  moreover have "i + 1 \<le> length (ds[i := sm mod 10])" using i by simp
  moreover have "length (ds[i := sm mod 10]) \<le> m"
    using Suc.prems(4) lt by (simp add: ds_def)
  moreover have "k = m - (i + 1)" using Suc.hyps(2) by simp
  ultimately obtain r where r: "add_loop other (int m) (int (i + 1)) (sm div 10)
        (ds[i := sm mod 10]) = Some r" "list_all digit r"
    "val r = val (ds[i := sm mod 10]) + 10 ^ (i + 1) * (sm div 10 + val (drop (i + 1) other))"
    "length r = m \<or> length r = m + 1 \<and> last r = 1"
    using Suc.hyps(1) [of "i + 1" "ds[i := sm mod 10]" "sm div 10"] by blast
  have g: "A + (u - d) * p + p * (10 * v + w) = A + p * ((u + 10 * v) - d + w)"
    for A u d p v w :: int
    by (simp add: algebra_simps)
  have e: "sm mod 10 + 10 * (sm div 10) = sm" by simp
  have "val r = val ds + (sm mod 10 - ds ! i) * 10 ^ i +
        10 ^ i * (10 * (sm div 10) + 10 * val (drop (Suc i) other))"
    using i r(3) by (simp add: val_update algebra_simps)
  also have "\<dots> = val ds + 10 ^ i * ((sm mod 10 + 10 * (sm div 10)) - ds ! i
        + 10 * val (drop (Suc i) other))"
    by (rule g)
  also have "\<dots> = val ds + 10 ^ i * (carry + (od + 10 * val (drop (Suc i) other)))"
    unfolding e by (simp add: sm_def)
  also have "od + 10 * val (drop (Suc i) other) = val (drop i other)"
    unfolding od_def by (rule val_drop_digit [symmetric])
  finally have "val r = val digits + 10 ^ i * (carry + val (drop i other))"
    by (simp add: vds)
  with r(1,2,4) show ?case unfolding step by blast
qed

lemma op_add_assign_correct:
  assumes "canonical a" and "canonical b"
    and "length a < 2147483647" and "length b < 2147483647"
  shows "\<exists>r. op_add_assign a b = Some r \<and> canonical r \<and> short r \<and> val r = val a + val b"
proof -
  let ?m = "max (length a) (length b)"
  have sa: "short a" and sb: "short b" using assms(3,4) by (simp_all add: short_def)
  have ml: "max (length_BigInt a) (length_BigInt b) = int ?m"
    using assms(3,4) by (simp add: length_BigInt_def short_size_of sa sb to_int_nat)
  have m: "1 \<le> ?m" using assms(1) by (cases a) (simp_all add: canonical_def)
  have "?m < 2147483647" using assms(3,4) by simp
  from add_loop_correct [OF canonical_digits [OF assms(2)] sb _ this
      canonical_digits [OF assms(1)], of 0 0]
  obtain r where r: "add_loop b (int ?m) 0 0 a = Some r" "list_all digit r"
    "val r = val a + val b" "length r = ?m \<or> length r = ?m + 1 \<and> last r = 1"
    by auto
  then have ne: "r \<noteq> []" using m by auto
  have sr: "short r" using r(4) assms(3,4) by (auto simp: short_def)
  have "canonical r"
  proof (cases "length r = ?m")
    case True
    have "length r = 1 \<or> 10 ^ (length r - 1) \<le> val r"
    proof (cases "?m = 1")
      case one: True
      with True show ?thesis by simp
    next
      case False
      with m have big: "1 < ?m" by simp
      have "10 ^ (?m - 1) \<le> val a + val b"
      proof (cases "length b \<le> length a")
        case True
        with big have "1 < length a" "?m = length a" by simp_all
        with canonical_val_lower [OF assms(1)] canonical_val_nonneg [OF assms(2)]
        show ?thesis by simp
      next
        case False
        with big have "1 < length b" "?m = length b" by simp_all
        with canonical_val_lower [OF assms(2)] canonical_val_nonneg [OF assms(1)]
        show ?thesis by simp
      qed
      with True r(3) show ?thesis by simp
    qed
    with ne r(2) show ?thesis by (intro canonicalI) simp_all
  next
    case False
    with r(4) have "last r = 1" by auto
    with ne r(2) show ?thesis by (simp add: canonical_def)
  qed
  with r(1,3) sr ml show ?thesis by (simp add: op_add_assign_def)
qed

lemma op_add_correct:
  "canonical a \<Longrightarrow> canonical b \<Longrightarrow> length a < 2147483647 \<Longrightarrow> length b < 2147483647 \<Longrightarrow>
   \<exists>r. op_add a b = Some r \<and> canonical r \<and> short r \<and> val r = val a + val b"
  unfolding op_add_def by (rule op_add_assign_correct)

section \<open>Power\<close>

lemma op_mul_assign_bounded:
  assumes "canonical x" and "canonical y" and "canonical F" and "short F"
    and "val x * val y \<le> val F"
  shows "canonical (op_mul_assign x y) \<and> val (op_mul_assign x y) = val x * val y"
proof (cases "val x = 0 \<or> val y = 0")
  case True
  with op_mul_assign_zero [OF assms(1,2)] show ?thesis
    by (auto simp: canonical_def digit_def)
next
  case False
  with canonical_val_nonneg [OF assms(1)] canonical_val_nonneg [OF assms(2)]
  have "0 < val x" "0 < val y" by simp_all
  from length_product [OF assms(1,2,3) this assms(5)] assms(4)
  have "length x + length y \<le> 2147483648" by (simp add: short_def)
  with assms(1,2) show ?thesis by (rule op_mul_assign_correct)
qed

lemma op_incr_correct:
  assumes "canonical counter" and "length counter < 2147483647"
  shows "\<exists>c. op_incr counter = Some c \<and> canonical c \<and> val c = val counter + 1"
proof -
  have "length (BigInt_ull 1) < 2147483647" by (simp add: BigInt_ull_consts)
  from op_add_assign_correct [OF assms(1) canonical_BigInt_ull assms(2) this]
  show ?thesis by (auto simp: op_incr_def val_BigInt_ull simp del: One_nat_def)
qed

lemma power_le_power_mult:
  fixes a r :: int
  assumes "0 \<le> a" and "0 \<le> r"
  shows "r * a \<le> r * a ^ Suc n \<or> a = 0"
proof (cases "a = 0")
  case True
  then show ?thesis by simp
next
  case False
  with assms(1) have "1 \<le> a" by simp
  then have "1 \<le> a ^ n" by (rule one_le_power)
  then have "a * 1 \<le> a * a ^ n" using assms(1) by (rule mult_left_mono)
  then have "r * (a * 1) \<le> r * (a * a ^ n)" using assms(2) by (rule mult_left_mono)
  then show ?thesis by simp
qed

lemma pow_while_correct:
  assumes a: "canonical a" and e: "canonical e" and le: "length e < 2147483647"
    and F: "canonical F" "short F"
  shows "canonical result \<Longrightarrow> canonical counter \<Longrightarrow> val counter \<le> val e \<Longrightarrow>
         val result * val a ^ nat (val e - val counter) \<le> val F \<Longrightarrow>
         pow_while a e result counter =
           Some (((\<lambda>acc. op_mul_assign acc a) ^^ nat (val e - val counter)) result) \<and>
         canonical (((\<lambda>acc. op_mul_assign acc a) ^^ nat (val e - val counter)) result) \<and>
         val (((\<lambda>acc. op_mul_assign acc a) ^^ nat (val e - val counter)) result) =
           val result * val a ^ nat (val e - val counter)"
proof (induction "nat (val e - val counter)" arbitrary: result counter)
  case 0
  then have "val counter = val e" by simp
  moreover have se: "short e" using le by (simp add: short_def)
  moreover have "short counter"
    using 0(3) e _ se by (rule short_val_le) (use 0(4) in simp)
  ultimately have "\<not> op_lt counter e" using 0 e by (simp add: op_lt_val)
  with 0 show ?case by (subst pow_while.simps) simp
next
  case (Suc n)
  let ?f = "\<lambda>acc. op_mul_assign acc a"
  from Suc have lt: "val counter < val e" by simp
  have se: "short e" using le by (simp add: short_def)
  have lc: "length counter \<le> length e"
    using Suc.prems(2) e by (rule canonical_length_le) (use lt in simp)
  then have sc: "short counter" using se by (simp add: short_def)
  have cmp: "op_lt counter e" using Suc.prems e lt sc se by (simp add: op_lt_val)
  from op_incr_correct [OF Suc.prems(2)] lc le
  obtain c where c: "op_incr counter = Some c" "canonical c" "val c = val counter + 1"
    by auto
  have k: "nat (val e - val counter) = Suc n" using Suc.hyps(2) by simp
  have n: "n = nat (val e - val c)" using Suc.hyps(2) c(3) by simp
  have bound: "val result * (val a * val a ^ n) \<le> val F"
    using Suc.prems(4) by (simp add: k)
  have "val result * val a \<le> val F"
  proof (cases "val a = 0")
    case True
    with canonical_val_nonneg [OF F(1)] show ?thesis by simp
  next
    case False
    with power_le_power_mult [OF canonical_val_nonneg [OF a]
        canonical_val_nonneg [OF Suc.prems(1)], of n] bound
    show ?thesis by simp
  qed
  from op_mul_assign_bounded [OF Suc.prems(1) a F this]
  have mul: "canonical (?f result)" "val (?f result) = val result * val a" by simp_all
  have "val (?f result) * val a ^ nat (val e - val c) \<le> val F"
    using bound by (simp add: mul(2) n [symmetric] algebra_simps)
  with n mul(1) c(2,3) lt
  have "pow_while a e (?f result) c =
          Some ((?f ^^ nat (val e - val c)) (?f result)) \<and>
        canonical ((?f ^^ nat (val e - val c)) (?f result)) \<and>
        val ((?f ^^ nat (val e - val c)) (?f result)) =
          val (?f result) * val a ^ nat (val e - val c)"
    by (intro Suc.hyps(1)) simp_all
  then have IH: "pow_while a e (?f result) c = Some ((?f ^^ n) (?f result))"
    "canonical ((?f ^^ n) (?f result))"
    "val ((?f ^^ n) (?f result)) = val result * val a * val a ^ n"
    unfolding n [symmetric] using mul by simp_all
  have "pow_while a e result counter = pow_while a e (?f result) c"
    using cmp c(1) by (subst pow_while.simps) simp
  moreover have "(?f ^^ Suc n) result = (?f ^^ n) (?f result)"
    by (simp only: funpow_Suc_right comp_apply)
  ultimately show ?case
    unfolding k using IH by simp
qed

lemma pow_correct:
  assumes "canonical a" and "canonical e" and "length e < 2147483647"
    and "length (show_nat (nat (val a ^ nat (val e)))) \<le> 2147483647"
  shows "pow a e = Some (((\<lambda>acc. op_mul_assign acc a) ^^ nat (val e)) (BigInt_ull 1)) \<and>
         (is_zero e \<longrightarrow> pow a e = Some [1]) \<and>
         (\<exists>r. pow a e = Some r \<and> canonical r \<and> val r = val a ^ nat (val e))"
proof (cases "is_zero e")
  case True
  then have "val e = 0" using assms by (simp add: is_zero_val)
  with True show ?thesis
    by (simp add: pow_def BigInt_ull_consts canonical_single digit_def)
next
  case False
  have c1: "canonical (BigInt_ull 1)" and c0: "canonical (BigInt_ull 0)"
    by (rule canonical_BigInt_ull)+
  have "0 \<le> val a ^ nat (val e)" using canonical_val_nonneg [OF assms(1)] by simp
  note F = short_digit_string [OF this assms(4)]
  have "val (BigInt_ull 0) \<le> val e"
    using canonical_val_nonneg [OF assms(2)] by (simp add: val_BigInt_ull)
  moreover have "val (BigInt_ull 1) * val a ^ nat (val e - val (BigInt_ull 0)) \<le>
      val (BigInt_ull (nat (val a ^ nat (val e))))"
    by (simp add: F(3) val_BigInt_ull del: One_nat_def)
  ultimately show ?thesis
    using pow_while_correct [OF assms(1,2,3) F(1,2) c1 c0] False
    by (simp add: pow_def val_BigInt_ull del: One_nat_def)
qed

section \<open>Square root\<close>

lemma canonical_val_length:
  assumes "canonical x" and "val x < 10 ^ k" and "0 < k"
  shows "length x \<le> k"
proof (rule ccontr)
  assume "\<not> length x \<le> k"
  then have k: "k < length x" by simp
  with assms(3) have "1 < length x" by simp
  from canonical_val_lower [OF assms(1) this] have "10 ^ (length x - 1) \<le> val x" .
  moreover have "(10::int) ^ k \<le> 10 ^ (length x - 1)"
    using k by (intro power_increasing) simp_all
  ultimately show False using assms(2) by linarith
qed

lemma length_square:
  assumes "canonical x" and "canonical y" and "val y = val x * val x"
  shows "length y \<le> length x + length x"
proof -
  have nn: "0 \<le> val x" using assms(1) by (rule canonical_val_nonneg)
  have up: "val x < 10 ^ length x" using assms(1) by (rule canonical_val_upper)
  have "val x * val x \<le> val x * 10 ^ length x"
    using up nn by (intro mult_left_mono) simp_all
  also have "\<dots> < 10 ^ length x * 10 ^ length x"
    using up by (intro mult_strict_right_mono) simp_all
  finally have "val y < 10 ^ (length x + length x)"
    by (simp add: assms(3) power_add)
  moreover have "0 < length x + length x"
    using canonical_nonempty [OF assms(1)] by simp
  ultimately show ?thesis using assms(2) by (intro canonical_val_length)
qed

lemma sqrt_while_correct:
  assumes a: "canonical a" and la: "length a \<le> 1073741823"
  shows "canonical low \<Longrightarrow> canonical high \<Longrightarrow> canonical result \<Longrightarrow>
         1 \<le> val low \<Longrightarrow> val result = val low - 1 \<Longrightarrow> val low \<le> val high + 1 \<Longrightarrow>
         val high \<le> val a \<Longrightarrow>
         val result * val result \<le> val a \<Longrightarrow> val a < (val high + 1) * (val high + 1) \<Longrightarrow>
         \<exists>r. sqrt_while a low high result = Some (Inr r) \<and> canonical r \<and>
             val r * val r \<le> val a \<and> val a < (val r + 1) * (val r + 1)"
proof (induction "nat (val high + 1 - val low)" arbitrary: low high result rule: less_induct)
  case less
  have sa: "short a" using la by (simp add: short_def)
  have lh: "length high \<le> length a"
    using less.prems(2) a less.prems(7) by (rule canonical_length_le)
  then have sh: "short high" using la by (simp add: short_def)
  have "val low \<le> val a + 1" using less.prems(6,7) by simp
  also have "\<dots> \<le> 10 ^ length a" using canonical_val_upper [OF a] by simp
  also have "\<dots> < 10 ^ (length a + 1)" by simp
  finally have "length low \<le> length a + 1"
    using less.prems(1) by (intro canonical_val_length) simp_all
  then have sl: "short low" using la by (simp add: short_def)
  show ?case
  proof (cases "val low \<le> val high")
    case False
    then have "\<not> op_le low high" using less.prems(1,2) sl sh by (simp add: op_le_val)
    moreover from False less.prems(5,6) have "val result = val high" by simp
    ultimately show ?thesis using less.prems(3,8,9)
      by (subst sqrt_while.simps) simp
  next
    case True
    then have le: "op_le low high" using less.prems(1,2) sl sh by (simp add: op_le_val)
    have c2: "canonical (BigInt_ull 2)" and c1: "canonical (BigInt_ull 1)"
      by (rule canonical_BigInt_ull)+
    have s2: "short (BigInt_ull 2)" and l1: "length (BigInt_ull 1) < 2147483647"
      by (simp_all add: BigInt_ull_consts short_def)
    have ll: "length low \<le> length a"
      using less.prems(1) a by (rule canonical_length_le) (use True less.prems(7) in simp)
    from op_add_correct [OF less.prems(1,2)] ll lh la
    obtain s where s: "op_add low high = Some s" "canonical s" "short s"
      "val s = val low + val high"
      by auto
    from op_div_correct [OF s(2) c2 _ s(3) s2]
    obtain mid where mid: "op_div s (BigInt_ull 2) = Some (Inr mid)"
      "canonical mid" "val mid = (val low + val high) div 2"
      by (auto simp: val_BigInt_ull s(4))
    have mid_bounds: "val low \<le> val mid" "val mid \<le> val high"
      using True mid(3) by simp_all
    have lm: "length mid \<le> length a"
      using mid(2) a by (rule canonical_length_le) (use mid_bounds less.prems(7) in simp)
    then have sm: "short mid" and lm1: "length mid < 2147483647"
      and rng: "length mid + length mid \<le> 2147483648"
      using la by (simp_all add: short_def)
    have csq: "canonical (op_mul mid mid)" and vsq: "val (op_mul mid mid) = val mid * val mid"
      using mid(2) rng by (simp_all add: op_mul_canonical op_mul_val)
    have "length (op_mul mid mid) \<le> length mid + length mid"
      using mid(2) csq vsq by (rule length_square)
    then have ssq: "short (op_mul mid mid)" using lm la by (simp add: short_def)
    have unfold: "sqrt_while a low high result =
        (if op_eq (op_mul mid mid) a then Some (Inr mid)
         else if op_lt (op_mul mid mid) a
         then (case op_add mid (BigInt_ull 1) of
                 None \<Rightarrow> None
               | Some low' \<Rightarrow> sqrt_while a low' high mid)
         else (case op_sub mid (BigInt_ull 1) of
                 Inl e \<Rightarrow> Some (Inl e)
               | Inr high' \<Rightarrow> sqrt_while a low high' result))"
      using le mid(1) s(1) by (subst sqrt_while.simps) (simp add: Let_def)
    consider "val mid * val mid = val a" | "val mid * val mid < val a"
      | "val a < val mid * val mid"
      by linarith
    then show ?thesis
    proof cases
      case 1
      then have "op_eq (op_mul mid mid) a" using csq a by (simp add: op_eq_val vsq)
      moreover have "val a < (val mid + 1) * (val mid + 1)"
        using 1 less.prems(4) mid_bounds(1) by (simp add: algebra_simps)
      ultimately show ?thesis using unfold mid(2) 1 by simp
    next
      case 2
      then have cmp: "\<not> op_eq (op_mul mid mid) a" "op_lt (op_mul mid mid) a"
        using csq a ssq sa by (simp_all add: op_eq_val op_lt_val vsq)
      from op_add_correct [OF mid(2) c1 lm1 l1]
      obtain low' where low': "op_add mid (BigInt_ull 1) = Some low'" "canonical low'"
        "val low' = val mid + 1"
        by (auto simp: val_BigInt_ull simp del: One_nat_def)
      have "nat (val high + 1 - val low') < nat (val high + 1 - val low)"
        using mid_bounds low'(3) by simp
      moreover have "1 \<le> val low'" using low'(3) less.prems(4) mid_bounds(1) by linarith
      moreover have "val mid = val low' - 1" by (simp add: low'(3))
      moreover have "val low' \<le> val high + 1" using low'(3) mid_bounds(2) by linarith
      moreover have "val mid * val mid \<le> val a" using 2 by linarith
      ultimately
      have "\<exists>r. sqrt_while a low' high mid = Some (Inr r) \<and> canonical r \<and>
             val r * val r \<le> val a \<and> val a < (val r + 1) * (val r + 1)"
        using low'(2) less.prems(2) mid(2) less.prems(7,9) by (intro less.hyps)
      with unfold cmp low'(1) show ?thesis by simp
    next
      case 3
      then have cmp: "\<not> op_eq (op_mul mid mid) a" "\<not> op_lt (op_mul mid mid) a"
        using csq a ssq sa by (simp_all add: op_eq_val op_lt_val vsq)
      have "val (BigInt_ull 1) \<le> val mid"
        using less.prems(4) mid_bounds(1) by (simp add: val_BigInt_ull)
      from op_sub_correct [OF mid(2) c1 this sm]
      obtain high' where h: "op_sub mid (BigInt_ull 1) = Inr high'" "canonical high'"
        "val high' = val mid - 1"
        by (auto simp: val_BigInt_ull)
      have "nat (val high' + 1 - val low) < nat (val high + 1 - val low)"
        using mid_bounds h(3) by simp
      moreover have "val low \<le> val high' + 1" using h(3) mid_bounds(1) by linarith
      moreover have "val high' \<le> val a" using h(3) mid_bounds(2) less.prems(7) by linarith
      moreover have "val a < (val high' + 1) * (val high' + 1)" using 3 by (simp add: h(3))
      ultimately
      have "\<exists>r. sqrt_while a low high' result = Some (Inr r) \<and> canonical r \<and>
             val r * val r \<le> val a \<and> val a < (val r + 1) * (val r + 1)"
        using less.prems(1) h(2) less.prems(3,4,5,8) by (intro less.hyps)
      with unfold cmp h(1) show ?thesis by simp
    qed
  qed
qed

lemma sqrt_correct:
  assumes "canonical a" and la: "length a \<le> 1073741823"
  shows "\<exists>r. sqrt a = Some (Inr r) \<and> canonical r \<and>
             val r * val r \<le> val a \<and> val a < (val r + 1) * (val r + 1)"
proof -
  have nn: "0 \<le> val a" using assms(1) by (rule canonical_val_nonneg)
  have sa: "short a" using la by (simp add: short_def)
  have c1: "canonical (BigInt_ull 1)" and c0: "canonical (BigInt_ull 0)"
    by (rule canonical_BigInt_ull)+
  have s0: "short (BigInt_ull 0)" by (simp add: BigInt_ull_consts short_def)
  have nlt: "\<not> op_lt a (BigInt_ull 0)"
    using assms(1) c0 nn sa s0 by (simp add: op_lt_val val_BigInt_ull)
  show ?thesis
  proof (cases "is_zero a \<or> op_eq a (BigInt_ull 1)")
    case True
    then have "val a = 0 \<or> val a = 1"
      using assms(1) c1 by (auto simp: is_zero_val op_eq_val val_BigInt_ull)
    then have "val a * val a \<le> val a \<and> val a < (val a + 1) * (val a + 1)" by auto
    with True nlt assms(1) show ?thesis by (simp add: sqrt_def)
  next
    case False
    then have "val a \<noteq> 0" "val a \<noteq> 1"
      using assms(1) c1 by (auto simp: is_zero_val op_eq_val val_BigInt_ull)
    with nn have big: "2 \<le> val a" by simp
    have "(val a + 1) * (val a + 1) = val a * val a + 2 * val a + 1"
      by (simp add: algebra_simps)
    moreover have "0 \<le> val a * val a" by simp
    ultimately have "val a < (val a + 1) * (val a + 1)" using nn by linarith
    with sqrt_while_correct [OF assms c1 assms(1) c0] big
    have "\<exists>r. sqrt_while a (BigInt_ull 1) a (BigInt_ull 0) = Some (Inr r) \<and> canonical r \<and>
             val r * val r \<le> val a \<and> val a < (val r + 1) * (val r + 1)"
      by (simp add: val_BigInt_ull)
    with False nlt show ?thesis by (simp add: sqrt_def)
  qed
qed

section \<open>Construction from a string\<close>

lemma digit_chars: "d < 10 \<Longrightarrow> (of_char (''0123456789'' ! d) :: nat) = 48 + d"
proof -
  assume "d < 10"
  then consider "d = 0" | "d = 1" | "d = 2" | "d = 3" | "d = 4" | "d = 5" | "d = 6"
    | "d = 7" | "d = 8" | "d = 9"
    by atomize_elim presburger
  then show ?thesis by cases simp_all
qed

lemma digit_char_of_char:
  assumes "isdigit c"
  shows "digit_char (of_char c - 48) = c"
proof -
  let ?d = "of_char c - 48 :: nat"
  from assms have d: "?d < 10" and n: "(of_char c :: nat) = 48 + ?d"
    by (auto simp: isdigit_def)
  from digit_chars [OF d] n have "(of_char (''0123456789'' ! ?d) :: nat) = of_char c"
    by simp
  then have "''0123456789'' ! ?d = c" by (rule of_char_eqI)
  then show ?thesis by (simp only: digit_char_def)
qed

lemma digit_of_char_eq:
  assumes "isdigit c"
  shows "digit_of_char c = int (of_char c) - 48"
proof -
  from assms have n: "48 \<le> (of_char c :: nat)" "(of_char c :: nat) \<le> 57"
    by (simp_all add: isdigit_def)
  then have "char_val c = int (of_char c)"
    unfolding char_val_def by (intro to_char_id) simp_all
  moreover have "char_val CHR ''0'' = 48" by (simp add: char_val_def to_char_def)
  moreover have "to_char (int (of_char c) - 48) = int (of_char c) - 48"
    using n by (intro to_char_id) simp_all
  ultimately show ?thesis by (simp add: digit_of_char_def)
qed

lemma digit_of_char_digit: "isdigit c \<Longrightarrow> digit (digit_of_char c)"
  by (simp add: digit_of_char_eq digit_def) (simp add: isdigit_def)

lemma digit_of_char_zero:
  assumes "isdigit c"
  shows "digit_of_char c = 0 \<longleftrightarrow> c = CHR ''0''"
proof
  assume "digit_of_char c = 0"
  with assms have "(of_char c :: nat) = of_char CHR ''0''"
    by (simp add: digit_of_char_eq isdigit_def)
  then show "c = CHR ''0''" by (rule of_char_eqI)
next
  assume "c = CHR ''0''"
  then show "digit_of_char c = 0"
    by (simp add: digit_of_char_def to_char_def)
qed

lemma show_int_digit_of_char:
  assumes "isdigit c"
  shows "show_int (digit_of_char c) = [c]"
proof -
  from assms have n: "48 \<le> (of_char c :: nat)" "(of_char c :: nat) \<le> 57"
    by (simp_all add: isdigit_def)
  then have "nat (int (of_char c) - 48) = of_char c - 48" by simp
  with n show ?thesis
    by (simp add: digit_of_char_eq [OF assms] show_int_def show_nat_small
        digit_char_of_char [OF assms])
qed

lemma BigInt_str_loop_stop: "BigInt_str_loop valid_part (- 1) digits = Inr digits"
  by (subst BigInt_str_loop.simps) simp

lemma BigInt_str_loop_step:
  assumes "k \<le> 2147483647"
  shows "BigInt_str_loop valid_part (int k) digits =
         (if \<not> isdigit (valid_part ! k)
          then Inl (invalid_argument ''Non-digit character in string'')
          else BigInt_str_loop valid_part (int k - 1)
                 (digits @ [digit_of_char (valid_part ! k)]))"
proof -
  have "to_size_t (int k) = k" using assms by (intro to_size_t_nat) simp
  moreover have "to_int (int k - 1) = int k - 1" using assms by (intro to_int_pred) simp
  ultimately show ?thesis
    by (subst BigInt_str_loop.simps) (simp add: digit_of_char_def)
qed

lemma BigInt_str_loop_digits:
  "short valid_part \<Longrightarrow> k \<le> length valid_part \<Longrightarrow> list_all isdigit (take k valid_part) \<Longrightarrow>
   BigInt_str_loop valid_part (int k - 1) digits =
     Inr (digits @ rev (map digit_of_char (take k valid_part)))"
proof (induction k arbitrary: digits)
  case 0
  then show ?case by (simp add: BigInt_str_loop_stop)
next
  case (Suc k)
  then have k: "k < length valid_part" by simp
  with Suc.prems(1) have k31: "k \<le> 2147483647" by (simp add: short_def)
  from Suc.prems(3) k have "isdigit (valid_part ! k)" "list_all isdigit (take k valid_part)"
    by (simp_all add: take_Suc_conv_app_nth)
  with Suc.IH [of "digits @ [digit_of_char (valid_part ! k)]"] k Suc.prems(1) show ?case
    by (simp add: take_Suc_conv_app_nth BigInt_str_loop_step [OF k31])
qed

lemma BigInt_str_loop_error:
  "short valid_part \<Longrightarrow> k \<le> length valid_part \<Longrightarrow> \<not> list_all isdigit (take k valid_part) \<Longrightarrow>
   BigInt_str_loop valid_part (int k - 1) digits =
     Inl (invalid_argument ''Non-digit character in string'')"
proof (induction k arbitrary: digits)
  case 0
  then show ?case by simp
next
  case (Suc k)
  then have k: "k < length valid_part" by simp
  with Suc.prems(1) have k31: "k \<le> 2147483647" by (simp add: short_def)
  show ?case
  proof (cases "isdigit (valid_part ! k)")
    case True
    with Suc.prems(3) k have "\<not> list_all isdigit (take k valid_part)"
      by (simp add: take_Suc_conv_app_nth)
    with Suc.IH Suc.prems(1) k True show ?thesis
      by (simp add: BigInt_str_loop_step [OF k31])
  next
    case False
    then show ?thesis by (simp add: BigInt_str_loop_step [OF k31])
  qed
qed

lemma find_first_not_of_Some:
  "find_first_not_of s c = Some k \<Longrightarrow> k < length s \<and> s ! k \<noteq> c"
  by (induction s arbitrary: k) (auto split: if_splits)

lemma BigInt_str_short:
  assumes "short s"
  shows "BigInt_str s =
         (case find_first_not_of s CHR ''0'' of
            None \<Rightarrow> Inr [48]
          | Some k \<Rightarrow> BigInt_str_loop (drop k s) (int (length (drop k s)) - 1) [])"
proof (cases "find_first_not_of s CHR ''0''")
  case None
  then show ?thesis by (simp add: BigInt_str_def char_val_def to_char_def)
next
  case (Some k)
  have sd: "short (drop k s)" using assms by (simp add: short_def)
  then have "to_int (int (size_of (drop k s)) - 1) = int (length (drop k s)) - 1"
    using to_int_pred [of "length (drop k s)"] by (simp add: short_size_of short_def)
  with Some show ?thesis by (simp add: BigInt_str_def)
qed

lemma BigInt_str_valid:
  assumes "find_first_not_of s CHR ''0'' = Some k" and "list_all isdigit (drop k s)"
    and "short s"
  shows "BigInt_str s = Inr (rev (map digit_of_char (drop k s)))"
    and "canonical (rev (map digit_of_char (drop k s)))"
proof -
  let ?vp = "drop k s"
  from find_first_not_of_Some [OF assms(1)] have k: "k < length s" "s ! k \<noteq> CHR ''0''"
    by simp_all
  have sd: "short ?vp" using assms(3) by (simp add: short_def)
  show "BigInt_str s = Inr (rev (map digit_of_char ?vp))"
    using assms(1,2) BigInt_str_loop_digits [OF sd, of "length ?vp" "[]"]
    by (simp add: BigInt_str_short [OF assms(3)])
  have ne: "?vp \<noteq> []" using k by simp
  have hd: "hd ?vp = s ! k" using k by (simp add: hd_drop_conv_nth)
  have "isdigit (hd ?vp)" using assms(2) ne by (cases ?vp) simp_all
  then have "digit (digit_of_char (hd ?vp))" "digit_of_char (hd ?vp) \<noteq> 0"
    using k(2) hd by (simp_all add: digit_of_char_digit digit_of_char_zero)
  then have "0 < digit_of_char (hd ?vp)" by (simp add: digit_def)
  moreover have "last (rev (map digit_of_char ?vp)) = digit_of_char (hd ?vp)"
    using ne by (simp add: last_rev hd_map)
  moreover have "list_all digit (rev (map digit_of_char ?vp))"
    using assms(2) by (simp add: list_all_iff digit_of_char_digit)
  ultimately show "canonical (rev (map digit_of_char ?vp))"
    using ne by (simp add: canonical_def)
qed

lemma op_output_digits:
  "list_all isdigit s \<Longrightarrow> op_output (rev (map digit_of_char s)) = s"
  by (induction s) (simp_all add: op_output_def show_int_digit_of_char)

section \<open>The operators on canonical values\<close>

text \<open>
  Away from the zero parsed from a text, the properties hold: the theorems below state
  them for canonical operands whose digit strings are short enough for the \<open>int\<close>
  counters of the loops.
\<close>

lemma short_small: "length xs \<le> 3 \<Longrightarrow> short xs"
  by (simp add: short_def)

text \<open>
  Subtract-into on canonical values throws \<open>underflow_error\<close> exactly when the receiver
  is smaller than the argument (the code's test \<open>*this < other\<close> is the comparison of
  the two numbers), and then the receiver is left as it was; otherwise it does not
  throw and the receiver becomes the canonical digit string of the exact difference.
\<close>

theorem subtract_into_canonical:
  assumes "canonical self" and "canonical other" and "short self" and "short other"
  shows "op_lt self other = (val self < val other) \<and>
         (if val self < val other
          then op_sub_assign self other =
                 (Some (underflow_error ''Result would be negative''), self)
          else \<exists>r. op_sub_assign self other = (None, r) \<and> canonical r \<and>
                   val r = val self - val other)"
proof (cases "val self < val other")
  case True
  then have "op_lt self other" using assms by (simp add: op_lt_val)
  with True show ?thesis by (simp add: op_sub_assign_underflow)
next
  case False
  then have "val other \<le> val self" by simp
  from op_sub_assign_correct [OF assms(1,2) this assms(3)] False assms show ?thesis
    by (simp add: op_lt_val)
qed

theorem subtract_into_canonical_witness:
  "canonical [2, 1] \<and> canonical [5] \<and> short [2, 1] \<and> short [5] \<and>
   op_sub_assign [5] [2, 1] = (Some (underflow_error ''Result would be negative''), [5]) \<and>
   op_sub_assign [2, 1] [5] = (None, [7]) \<and> canonical [7] \<and> val [7] = val [2, 1] - val [5]"
proof -
  have c: "canonical [2, 1]" "canonical [5]"
    by (simp_all add: canonical_def digit_def)
  have s: "short [2, 1]" "short [5]" by (simp_all add: short_small)
  have e: "op_sub_assign [2, 1] [5] = (None, [7])"
    by (simp add: eval_simps)
  from subtract_into_canonical [OF c(2) c(1) s(2) s(1)]
    subtract_into_canonical [OF c(1) c(2) s(1) s(2)] c s e
  show ?thesis by simp
qed

text \<open>
  On canonical values, division and modulo throw \<open>runtime_error\<close> (the division-by-zero
  error, with the messages "Division by zero!" and "Modulo by zero!") exactly when the
  divisor is zero; with a nonzero divisor both return a value, the quotient of a smaller
  dividend is zero and the quotient of an equal dividend is one.
\<close>

theorem division_by_zero_canonical:
  assumes "canonical a" and "canonical b" and "short a" and "short b"
  shows "is_zero b = (val b = 0) \<and>
         (if is_zero b
          then op_div a b = Some (Inl (runtime_error ''Division by zero!'')) \<and>
               op_mod a b = Some (Inl (runtime_error ''Modulo by zero!''))
          else (\<exists>q r. op_div a b = Some (Inr q) \<and> op_mod a b = Some (Inr r)) \<and>
               (op_lt a b \<longrightarrow> op_div a b = Some (Inr [0])) \<and>
               (op_eq a b \<longrightarrow> op_div a b = Some (Inr [1])))"
proof (cases "is_zero b")
  case True
  with assms show ?thesis
    by (simp add: is_zero_val op_div_def op_div_assign_def op_mod_def)
next
  case False
  then have nz: "val b \<noteq> 0" using assms by (simp add: is_zero_val)
  from op_div_correct [OF assms(1,2) nz assms(3,4)] op_mod_correct [OF assms(1,2) nz assms(3,4)]
  have "\<exists>q r. op_div a b = Some (Inr q) \<and> op_mod a b = Some (Inr r)" by blast
  moreover have "op_div a b = Some (Inr [0])" if "op_lt a b"
    using that False by (simp add: op_div_def op_div_assign_def BigInt_ull_small)
  moreover have "op_div a b = Some (Inr [1])" if "op_eq a b"
  proof -
    from that assms have "\<not> op_lt a b" by (simp add: op_eq_val op_lt_val)
    with that False show ?thesis
      by (simp add: op_div_def op_div_assign_def BigInt_ull_small)
  qed
  ultimately show ?thesis using False nz by simp
qed

theorem division_by_zero_canonical_witness:
  "canonical [7] \<and> canonical [0] \<and> canonical [2] \<and> canonical [3] \<and>
   short [7] \<and> short [0] \<and> short [2] \<and> short [3] \<and>
   op_div [7] [0] = Some (Inl (runtime_error ''Division by zero!'')) \<and>
   op_mod [7] [0] = Some (Inl (runtime_error ''Modulo by zero!'')) \<and>
   op_div [7] [3] = Some (Inr [2]) \<and> op_mod [7] [3] = Some (Inr [1]) \<and>
   op_div [2] [3] = Some (Inr [0]) \<and>
   op_div [3] [3] = Some (Inr [1])"
proof -
  have c: "canonical [7]" "canonical [0]" "canonical [2]" "canonical [3]"
    by (simp_all add: canonical_def digit_def)
  have s: "short [7]" "short [0]" "short [2]" "short [3]" by (simp_all add: short_small)
  have e: "op_div [7] [3] = Some (Inr [2])" "op_mod [7] [3] = Some (Inr [1])"
    by (simp_all add: eval_simps cong: prod.case_cong_weak)
  have l: "op_lt [2] [3]" "op_eq [3] [3]" "is_zero [0]" "\<not> is_zero [3]"
    by (simp_all add: eval_simps)
  from division_by_zero_canonical [OF c(1) c(2) s(1) s(2)]
    division_by_zero_canonical [OF c(3) c(4) s(3) s(4)]
    division_by_zero_canonical [OF c(4) c(4) s(4) s(4)] c s e l
  show ?thesis by simp
qed

text \<open>
  For canonical \<open>a\<close> and canonical nonzero \<open>b\<close>, \<open>a / b\<close> and \<open>a % b\<close> return values \<open>q\<close>
  and \<open>r\<close> with \<open>a == q * b + r\<close> and \<open>r < b\<close>, in the code's own operators; \<open>q\<close> and \<open>r\<close>
  are the quotient and the remainder of the two numbers.
\<close>

theorem division_remainder_canonical:
  assumes "canonical a" and "canonical b" and "\<not> is_zero b"
    and "length a < 2147483647" and "short b"
  shows "\<exists>q r s. op_div a b = Some (Inr q) \<and> op_mod a b = Some (Inr r) \<and>
                 op_add (op_mul q b) r = Some s \<and> op_eq a s \<and> op_lt r b \<and>
                 val q = val a div val b \<and> val r = val a mod val b"
proof -
  have sa: "short a" using assms(4) by (simp add: short_def)
  have nz: "val b \<noteq> 0" using assms by (simp add: is_zero_val)
  then have pos: "0 < val b" using canonical_val_nonneg [OF assms(2)] by simp
  from op_div_correct [OF assms(1,2) nz sa assms(5)]
  obtain q where q: "op_div a b = Some (Inr q)" "canonical q" "val q = val a div val b"
    by auto
  from op_mod_correct [OF assms(1,2) nz sa assms(5)]
  obtain r where r: "op_mod a b = Some (Inr r)" "canonical r" "val r = val a mod val b"
    by auto
  have "val a - val a div val b * val b = val a mod val b"
    by (simp add: minus_div_mult_eq_mod)
  moreover have rn: "0 \<le> val a mod val b" using pos by simp
  ultimately have le: "val q * val b \<le> val a" unfolding q(3) by linarith
  from op_mul_assign_bounded [OF q(2) assms(2,1) sa le]
  have cm: "canonical (op_mul q b)" and vm: "val (op_mul q b) = val q * val b"
    by (simp_all add: op_mul_def)
  have "0 \<le> val a div val b * val b"
    using canonical_val_nonneg [OF assms(1)] pos by (simp add: pos_imp_zdiv_nonneg_iff)
  then have rle: "val r \<le> val a"
    unfolding r(3) using minus_div_mult_eq_mod [of "val a" "val b"] by linarith
  have lm: "length (op_mul q b) < 2147483647"
    using canonical_length_le [OF cm assms(1)] le assms(4) by (simp add: vm)
  have lr: "length r < 2147483647"
    using canonical_length_le [OF r(2) assms(1) rle] assms(4) by simp
  from op_add_correct [OF cm r(2) lm lr]
  obtain s where s: "op_add (op_mul q b) r = Some s" "canonical s"
    "val s = val (op_mul q b) + val r"
    by auto
  have "val s = val a" by (simp add: s(3) vm q(3) r(3))
  then have "op_eq a s" using assms(1) s(2) by (simp add: op_eq_val)
  moreover have "short r" using lr by (simp add: short_def)
  then have "op_lt r b"
    using r(2,3) assms(2,5) pos by (simp add: op_lt_val)
  ultimately show ?thesis using q r s(1) by blast
qed

theorem division_remainder_canonical_witness:
  "canonical [0, 0, 1] \<and> canonical [3] \<and> \<not> is_zero [3] \<and>
   op_div [0, 0, 1] [3] = Some (Inr [3, 3]) \<and> op_mod [0, 0, 1] [3] = Some (Inr [1]) \<and>
   op_add (op_mul [3, 3] [3]) [1] = Some [0, 0, 1] \<and> op_lt [1] [3] \<and>
   val [3, 3] = val [0, 0, 1] div val [3] \<and> val [1] = val [0, 0, 1] mod val [3]"
proof -
  have c: "canonical [0, 0, 1]" "canonical [3]" "\<not> is_zero [3]"
    by (simp_all add: canonical_def digit_def is_zero_def)
  have l: "length [0, 0, 1 :: int] < 2147483647" "short [3 :: int]"
    by (simp_all add: short_def)
  have e: "op_div [0, 0, 1] [3] = Some (Inr [3, 3])" "op_mod [0, 0, 1] [3] = Some (Inr [1])"
    "op_add (op_mul [3, 3] [3]) [1] = Some [0, 0, 1]"
    by (simp_all add: eval_simps cong: prod.case_cong_weak)
  from division_remainder_canonical [OF c l] obtain q r s where
    "op_div [0, 0, 1] [3] = Some (Inr q)" "op_mod [0, 0, 1] [3] = Some (Inr r)"
    "op_add (op_mul q [3]) r = Some s" "op_eq [0, 0, 1] s" "op_lt r [3]"
    "val q = val [0, 0, 1] div val [3]" "val r = val [0, 0, 1] mod val [3]"
    by blast
  with e c show ?thesis by simp
qed

text \<open>
  For every canonical \<open>a\<close> of at most \<open>2 ^ 30 - 1\<close> digits (so that the squares the
  bisection computes are short) the square root returns a canonical \<open>r\<close> with
  \<open>r * r <= a\<close> and \<open>a < (r + 1) * (r + 1)\<close>.
\<close>

theorem sqrt_bound_canonical:
  assumes "canonical a" and "length a \<le> 1073741823"
  shows "\<exists>r. sqrt a = Some (Inr r) \<and> canonical r \<and> op_le (op_mul r r) a \<and>
             val r * val r \<le> val a \<and> val a < (val r + 1) * (val r + 1)"
proof -
  have sa: "short a" using assms(2) by (simp add: short_def)
  from sqrt_correct [OF assms]
  obtain r where r: "sqrt a = Some (Inr r)" "canonical r"
    "val r * val r \<le> val a" "val a < (val r + 1) * (val r + 1)"
    by auto
  from op_mul_assign_bounded [OF r(2,2) assms(1) sa r(3)]
  have cm: "canonical (op_mul r r)" and vm: "val (op_mul r r) = val r * val r"
    by (simp_all add: op_mul_def)
  have "short (op_mul r r)"
    using cm assms(1) _ sa by (rule short_val_le) (simp add: vm r(3))
  then have "op_le (op_mul r r) a"
    using cm assms(1) sa r(3) by (simp add: op_le_val vm)
  with r show ?thesis by blast
qed

theorem sqrt_bound_canonical_witness:
  "canonical [9, 9] \<and> length [9, 9 :: int] \<le> 1073741823 \<and>
   sqrt [9, 9] = Some (Inr [9]) \<and> canonical [9] \<and>
   op_le (op_mul [9] [9]) [9, 9] \<and>
   val [9] * val [9] \<le> val [9, 9] \<and> val [9, 9] < (val [9] + 1) * (val [9] + 1)"
proof -
  have c: "canonical [9, 9]" "length [9, 9 :: int] \<le> 1073741823"
    by (simp_all add: canonical_def digit_def)
  have e: "sqrt [9, 9] = Some (Inr [9])"
    by (simp add: eval_simps sqrt_def sqrt_while.simps cong: prod.case_cong_weak)
  from sqrt_bound_canonical [OF c] obtain r where
    "sqrt [9, 9] = Some (Inr r)" "canonical r" "op_le (op_mul r r) [9, 9]"
    "val r * val r \<le> val [9, 9]" "val [9, 9] < (val r + 1) * (val r + 1)"
    by blast
  with e c show ?thesis by simp
qed

text \<open>
  For a canonical base \<open>a\<close> and a canonical exponent \<open>e\<close> of fewer than \<open>2 ^ 31 - 1\<close>
  digits, such that \<open>a\<close> to the power \<open>e\<close> has at most \<open>2 ^ 31 - 1\<close> decimal digits, \<open>pow\<close>
  returns; the result is the accumulator one multiplied by \<open>a\<close> once per unit of \<open>e\<close>,
  which stands for \<open>a\<close> to the power \<open>e\<close>, and it is one when \<open>e\<close> is zero. The counter
  is advanced by \<open>op_incr\<close>, modelled from the spec, and compared with \<open>e\<close> by the code's
  \<open>operator<\<close>.
\<close>

theorem pow_canonical:
  assumes "canonical a" and "canonical e" and "length e < 2147483647"
    and "length (show_nat (nat (val a ^ nat (val e)))) \<le> 2147483647"
  shows "pow a e = Some (((\<lambda>acc. op_mul_assign acc a) ^^ nat (val e)) (BigInt_ull 1)) \<and>
         (if is_zero e then pow a e = Some [1]
          else \<exists>r. pow a e = Some r \<and> canonical r \<and> val r = val a ^ nat (val e))"
  using pow_correct [OF assms] by auto

theorem pow_canonical_witness:
  "canonical [2] \<and> canonical [0, 1] \<and> canonical [0] \<and>
   pow [2] [0] = Some [1] \<and>
   pow [2] [0, 1] = Some [4, 2, 0, 1] \<and> canonical [4, 2, 0, 1] \<and>
   val [4, 2, 0, 1] = val [2] ^ nat (val [0, 1])"
proof -
  have c: "canonical [2]" "canonical [0, 1]" "canonical [0]"
    by (simp_all add: canonical_def digit_def)
  have l: "length [0, 1 :: int] < 2147483647" "length [0 :: int] < 2147483647"
    "length (show_nat (nat (val [2] ^ nat (val [0, 1])))) \<le> 2147483647"
    "length (show_nat (nat (val [2] ^ nat (val [0])))) \<le> 2147483647"
    by (simp_all add: show_nat.simps)
  have z: "is_zero [0]" "\<not> is_zero [0, 1]" by (simp_all add: is_zero_def)
  have e: "pow [2] [0, 1] = Some [4, 2, 0, 1]"
    by (simp add: eval_simps pow_def pow_while.simps cong: prod.case_cong_weak)
  from pow_canonical [OF c(1) c(2) l(1) l(3), THEN conjunct2] z(2) obtain r where
    "pow [2] [0, 1] = Some r" "canonical r" "val r = val [2] ^ nat (val [0, 1])"
    by auto
  with e have "canonical [4, 2, 0, 1]" "val [4, 2, 0, 1] = val [2] ^ nat (val [0, 1])"
    by simp_all
  moreover have "pow [2] [0] = Some [1]"
    using pow_canonical [OF c(1) c(3) l(2) l(4), THEN conjunct2] z(1) by simp
  ultimately show ?thesis using c e by simp
qed

section \<open>The invariant and the round trip away from the all-zero texts\<close>

text \<open>
  The representation invariant holds for every value built from a native unsigned
  integer, for every value parsed from a short text that has a character other than
  \<open>'0'\<close>, and for every result that an arithmetic operation returns on canonical
  operands short enough for the \<open>int\<close> counters.
\<close>

theorem canonical_invariant:
  "canonical (BigInt_ull n) \<and>
   (find_first_not_of s CHR ''0'' \<noteq> None \<and> short s \<longrightarrow>
      (\<forall>x. BigInt_str s = Inr x \<longrightarrow> canonical x)) \<and>
   (canonical a \<and> canonical b \<and> length a < 2147483647 \<and> length b < 2147483647 \<longrightarrow>
      (\<exists>r. op_add a b = Some r \<and> canonical r) \<and>
      (\<forall>r. op_sub a b = Inr r \<longrightarrow> canonical r) \<and>
      (\<forall>q. op_div a b = Some (Inr q) \<longrightarrow> canonical q) \<and>
      (\<forall>r. op_mod a b = Some (Inr r) \<longrightarrow> canonical r)) \<and>
   (canonical a \<and> canonical b \<and> length a + length b \<le> 2147483648 \<longrightarrow>
      canonical (op_mul a b)) \<and>
   (canonical a \<and> canonical b \<and> length b < 2147483647 \<and>
    length (show_nat (nat (val a ^ nat (val b)))) \<le> 2147483647 \<longrightarrow>
      (\<exists>r. pow a b = Some r \<and> canonical r)) \<and>
   (canonical a \<and> length a \<le> 1073741823 \<longrightarrow>
      (\<exists>r. sqrt a = Some (Inr r) \<and> canonical r))"
proof (intro conjI impI allI)
  show "canonical (BigInt_ull n)" by (rule canonical_BigInt_ull)
next
  fix x
  assume "find_first_not_of s CHR ''0'' \<noteq> None \<and> short s" and x: "BigInt_str s = Inr x"
  then obtain k where k: "find_first_not_of s CHR ''0'' = Some k" and ss: "short s" by auto
  have sd: "short (drop k s)" using ss by (simp add: short_def)
  show "canonical x"
  proof (cases "list_all isdigit (drop k s)")
    case True
    from BigInt_str_valid [OF k True ss] x show ?thesis by simp
  next
    case False
    with BigInt_str_loop_error [OF sd, of "length (drop k s)" "[]"] k x show ?thesis
      by (simp add: BigInt_str_short [OF ss])
  qed
next
  assume "canonical a \<and> canonical b \<and> length a < 2147483647 \<and> length b < 2147483647"
  with op_add_correct [of a b] show "\<exists>r. op_add a b = Some r \<and> canonical r" by blast
next
  fix r
  assume ab: "canonical a \<and> canonical b \<and> length a < 2147483647 \<and> length b < 2147483647"
    and r: "op_sub a b = Inr r"
  then have s: "short a" "short b" by (simp_all add: short_def)
  show "canonical r"
  proof (cases "val a < val b")
    case True
    then have "op_lt a b" using ab s by (simp add: op_lt_val)
    with r show ?thesis by (simp add: op_sub_def op_sub_assign_underflow)
  next
    case False
    then have "val b \<le> val a" by simp
    with op_sub_correct [of a b] ab s r show ?thesis by auto
  qed
next
  fix q
  assume ab: "canonical a \<and> canonical b \<and> length a < 2147483647 \<and> length b < 2147483647"
    and q: "op_div a b = Some (Inr q)"
  then have s: "short a" "short b" by (simp_all add: short_def)
  show "canonical q"
  proof (cases "val b = 0")
    case True
    then have "is_zero b" using ab by (simp add: is_zero_val)
    with q show ?thesis by (simp add: op_div_def op_div_assign_def)
  next
    case False
    with op_div_correct [of a b] ab s q show ?thesis by auto
  qed
next
  fix r
  assume ab: "canonical a \<and> canonical b \<and> length a < 2147483647 \<and> length b < 2147483647"
    and r: "op_mod a b = Some (Inr r)"
  then have s: "short a" "short b" by (simp_all add: short_def)
  show "canonical r"
  proof (cases "val b = 0")
    case True
    then have "is_zero b" using ab by (simp add: is_zero_val)
    with r show ?thesis by (simp add: op_mod_def)
  next
    case False
    with op_mod_correct [of a b] ab s r show ?thesis by auto
  qed
next
  assume "canonical a \<and> canonical b \<and> length a + length b \<le> 2147483648"
  then show "canonical (op_mul a b)" by (simp add: op_mul_canonical)
next
  assume "canonical a \<and> canonical b \<and> length b < 2147483647 \<and>
    length (show_nat (nat (val a ^ nat (val b)))) \<le> 2147483647"
  with pow_correct [of a b] show "\<exists>r. pow a b = Some r \<and> canonical r" by blast
next
  assume "canonical a \<and> length a \<le> 1073741823"
  with sqrt_correct [of a] show "\<exists>r. sqrt a = Some (Inr r) \<and> canonical r" by blast
qed

theorem canonical_invariant_witness:
  "canonical (BigInt_ull 42) \<and> BigInt_str ''0012'' = Inr [2, 1] \<and> canonical [2, 1] \<and>
   canonical [5] \<and> op_add [2, 1] [5] = Some [7, 1] \<and> canonical [7, 1] \<and>
   canonical (op_mul [2, 1] [5])"
proof -
  have c: "canonical [2, 1]" "canonical [5]"
    by (simp_all add: canonical_def digit_def)
  have p: "BigInt_str ''0012'' = Inr [2, 1]"
    by (simp add: BigInt_str_def BigInt_str_loop.simps isdigit_def char_val_def eval_simps)
  have e: "op_add [2, 1] [5] = Some [7, 1]" by (simp add: eval_simps)
  have s: "short ''0012''" by (simp add: short_def)
  from canonical_invariant [of 42 "''0012''" "[2, 1]" "[5]"] c p e s show ?thesis by simp
qed

text \<open>
  Parsing a text of decimal digits that does not start with \<open>'0'\<close> and writing the value
  gives the text back.
\<close>

theorem parse_output_round_trip:
  assumes "s \<noteq> []" and "list_all isdigit s" and "hd s \<noteq> CHR ''0''" and "short s"
  shows "\<exists>x. BigInt_str s = Inr x \<and> canonical x \<and> op_output x = s"
proof -
  from assms(1,3) have k: "find_first_not_of s CHR ''0'' = Some 0"
    by (cases s) simp_all
  from BigInt_str_valid [OF k _ assms(4)] assms(2) op_output_digits [OF assms(2)]
  show ?thesis by simp
qed

theorem parse_output_round_trip_witness:
  "''1024'' \<noteq> [] \<and> list_all isdigit ''1024'' \<and> hd ''1024'' \<noteq> CHR ''0'' \<and> short ''1024'' \<and>
   (\<exists>x. BigInt_str ''1024'' = Inr x \<and> canonical x \<and> op_output x = ''1024'')"
proof -
  have h: "''1024'' \<noteq> []" "list_all isdigit ''1024''" "hd ''1024'' \<noteq> CHR ''0''"
    "short ''1024''"
    by (simp_all add: isdigit_def short_def)
  from parse_output_round_trip [OF h] h show ?thesis by simp
qed

end
